theory Spec2Isabelle
  imports Complex_Main
begin

section \<open>Colors, errors and array access\<close>

text \<open>
  Modelled from the spec: the module \<open>board_util\<close> is not among the sources. Its four
  cell values \<open>EMPTY\<close>, \<open>BLACK\<close>, \<open>WHITE\<close>, \<open>BORDER\<close> are the constructors of
  \<open>color\<close>; \<open>opponent\<close> is the "opponent/color arithmetic" of the spec: it swaps the
  two player colors (the arithmetic \<open>WHITE + BLACK - color\<close> over the cell codes
  0..3 swaps the two remaining values as well); \<open>is_black_white\<close> tells the player
  colors from the rest.
\<close>

datatype color = EMPTY | BLACK | WHITE | BORDER

fun opponent :: "color \<Rightarrow> color" where
  "opponent BLACK = WHITE"
| "opponent WHITE = BLACK"
| "opponent EMPTY = BORDER"
| "opponent BORDER = EMPTY"

definition is_black_white :: "color \<Rightarrow> bool" where
  "is_black_white c = (c = BLACK \<or> c = WHITE)"

text \<open>
  The exceptions the modelled code can raise. \<open>NonTermination\<close> is not an
  exception: it marks a loop that never returns.
\<close>

datatype py_error = AssertionError | IndexError | RecursionError | NonTermination

text \<open>
  Reading and writing one element of a numpy array by an integer index: an
  index in \<open>[-n, 0)\<close> counts from the end, anything outside \<open>[-n, n)\<close> raises
  \<open>IndexError\<close>.
\<close>

definition np_index :: "'a list \<Rightarrow> int \<Rightarrow> nat option" where
  "np_index xs i =
     (let n = int (length xs)
      in if 0 \<le> i \<and> i < n then Some (nat i)
         else if - n \<le> i \<and> i < 0 then Some (nat (i + n))
         else None)"

definition np_get :: "'a list \<Rightarrow> int \<Rightarrow> py_error + 'a" where
  "np_get xs i = (case np_index xs i of None \<Rightarrow> Inl IndexError | Some k \<Rightarrow> Inr (xs ! k))"

definition np_set :: "'a list \<Rightarrow> int \<Rightarrow> 'a \<Rightarrow> py_error + 'a list" where
  "np_set xs i v = (case np_index xs i of None \<Rightarrow> Inl IndexError | Some k \<Rightarrow> Inr (xs[k := v]))"

text \<open>
  Modelled from the spec: \<open>where1d\<close> of \<open>board_util\<close> is the "which cells equal X"
  query: the indices of the cells that satisfy the condition, in ascending order.
\<close>

definition where1d :: "('a \<Rightarrow> bool) \<Rightarrow> 'a list \<Rightarrow> int list" where
  "where1d P xs = map int (filter (\<lambda>i. P (xs ! i)) [0..<length xs])"

section \<open>The board\<close>

text \<open>
  The fields of \<open>SimpleGoBoard\<close> that the Gomoku path reads or writes. The field
  \<open>size\<close> of the source is \<open>size_b\<close> here.
\<close>

record SimpleGoBoard =
  size_b :: int
  NS :: int
  board :: "color list"
  current_player :: color
  best_move :: "int option"
  best_move_score :: real

definition get_empty_points :: "SimpleGoBoard \<Rightarrow> int list" where
  "get_empty_points b = where1d (\<lambda>c. c = EMPTY) (board b)"

text \<open>
  \<open>play_move_gomoku\<close>. The point \<open>PASS\<close> of \<open>board_util\<close> is \<open>None\<close>; both
  assertions come first, then the occupied cell is refused.
\<close>

definition play_move_gomoku ::
    "SimpleGoBoard \<Rightarrow> int option \<Rightarrow> color \<Rightarrow> py_error + (bool \<times> SimpleGoBoard)" where
  "play_move_gomoku b point color =
     (if \<not> is_black_white color then Inl AssertionError
      else case point of
        None \<Rightarrow> Inl AssertionError
      | Some p \<Rightarrow>
          (case np_get (board b) p of
             Inl e \<Rightarrow> Inl e
           | Inr v \<Rightarrow>
               if v \<noteq> EMPTY then Inr (False, b)
               else (case np_set (board b) p color of
                       Inl e \<Rightarrow> Inl e
                     | Inr cells \<Rightarrow>
                         Inr (True, b\<lparr>board := cells, current_player := opponent color\<rparr>))))"

text \<open>\<open>undo\<close> of \<open>alphabeta.py\<close>: clear the cell, flip the player.\<close>

definition undo :: "SimpleGoBoard \<Rightarrow> int \<Rightarrow> py_error + SimpleGoBoard" where
  "undo b move =
     (case np_set (board b) move EMPTY of
        Inl e \<Rightarrow> Inl e
      | Inr cells \<Rightarrow> Inr (b\<lparr>board := cells, current_player := opponent (current_player b)\<rparr>))"

text \<open>The sequence \<open>play_move_gomoku(p, c); undo(p)\<close>, the return value of the play dropped.\<close>

definition play_then_undo :: "SimpleGoBoard \<Rightarrow> int \<Rightarrow> color \<Rightarrow> py_error + SimpleGoBoard" where
  "play_then_undo b p c =
     (case play_move_gomoku b (Some p) c of
        Inl e \<Rightarrow> Inl e
      | Inr (ok, b') \<Rightarrow> undo b' p)"

text \<open>
  The start position \<open>reset(size)\<close> builds: an array of \<open>size * size + 3 * (size + 1)\<close>
  cells, all \<open>BORDER\<close>, in which \<open>_initialize_empty_points\<close> fills the \<open>size\<close> cells
  from \<open>row_start(row)\<close> on with \<open>EMPTY\<close>, for each row from 1 to \<open>size\<close>.
\<close>

definition row_start :: "int \<Rightarrow> int \<Rightarrow> int" where
  "row_start ns row = row * ns + 1"

definition fill_slice :: "'a list \<Rightarrow> int \<Rightarrow> int \<Rightarrow> 'a \<Rightarrow> 'a list" where
  "fill_slice xs lo hi v =
     map (\<lambda>i. if lo \<le> int i \<and> int i < hi then v else xs ! i) [0..<length xs]"

definition initialize_empty_points :: "int \<Rightarrow> color list \<Rightarrow> color list" where
  "initialize_empty_points n cells =
     fold (\<lambda>row cs. fill_slice cs (row_start (n + 1) row) (row_start (n + 1) row + n) EMPTY)
       [1..n] cells"

definition reset :: "int \<Rightarrow> SimpleGoBoard" where
  "reset n =
     \<lparr> size_b = n, NS = n + 1,
       board = initialize_empty_points n (replicate (nat (n * n + 3 * (n + 1))) BORDER),
       current_player = BLACK, best_move = None, best_move_score = - 1000000 \<rparr>"

text \<open>
  Test positions are written as the start position with stones put on it.
\<close>

definition with_stones :: "color \<Rightarrow> nat list \<Rightarrow> SimpleGoBoard \<Rightarrow> SimpleGoBoard" where
  "with_stones c ps b = b\<lparr>board := fold (\<lambda>p cells. cells[p := c]) ps (board b)\<rparr>"

section \<open>Terminal detection\<close>

text \<open>
  The two \<open>while True\<close> loops of \<open>_point_direction_check_connect_gomoko\<close> are one
  loop run with \<open>d = shift\<close> and with \<open>d = - shift\<close>: step, read the cell (the read
  may raise), count it when it has the color, stop when the count is exactly 5 or the
  cell has another value. \<open>None\<close> is a loop that does not return.
\<close>

partial_function (option) count_loop ::
    "color list \<Rightarrow> color \<Rightarrow> int \<Rightarrow> int \<Rightarrow> int \<Rightarrow> (py_error + int) option" where
  "count_loop cells color d p count =
     (case np_get cells (p + d) of
        Inl e \<Rightarrow> Some (Inl e)
      | Inr v \<Rightarrow>
          if v = color then
            (if count + 1 = 5 then Some (Inr (count + 1))
             else count_loop cells color d (p + d) (count + 1))
          else Some (Inr count))"

declare count_loop.simps [code]

definition point_direction_check_connect_gomoko ::
    "SimpleGoBoard \<Rightarrow> int \<Rightarrow> int \<Rightarrow> py_error + bool" where
  "point_direction_check_connect_gomoko b point shift =
     (case np_get (board b) point of
        Inl e \<Rightarrow> Inl e
      | Inr color \<Rightarrow>
          (case count_loop (board b) color shift point 1 of
             None \<Rightarrow> Inl NonTermination
           | Some (Inl e) \<Rightarrow> Inl e
           | Some (Inr count) \<Rightarrow>
               (case count_loop (board b) color (- shift) point count of
                  None \<Rightarrow> Inl NonTermination
                | Some (Inl e) \<Rightarrow> Inl e
                | Some (Inr count') \<Rightarrow>
                    if \<not> count' \<le> 5 then Inl AssertionError else Inr (count' = 5))))"

text \<open>The four line directions, in the order \<open>point_check_game_end_gomoku\<close> tries them.\<close>

definition shifts :: "SimpleGoBoard \<Rightarrow> int list" where
  "shifts b = [1, NS b, NS b + 1, NS b - 1]"

fun any_direction :: "SimpleGoBoard \<Rightarrow> int \<Rightarrow> int list \<Rightarrow> py_error + bool" where
  "any_direction b point [] = Inr False"
| "any_direction b point (s # ss) =
     (case point_direction_check_connect_gomoko b point s of
        Inl e \<Rightarrow> Inl e
      | Inr True \<Rightarrow> Inr True
      | Inr False \<Rightarrow> any_direction b point ss)"

definition point_check_game_end_gomoku :: "SimpleGoBoard \<Rightarrow> int \<Rightarrow> py_error + bool" where
  "point_check_game_end_gomoku b point = any_direction b point (shifts b)"

text \<open>
  One loop of \<open>check_game_end_gomoku\<close>: the first point of the list that ends the
  game returns at once.
\<close>

fun any_point :: "SimpleGoBoard \<Rightarrow> int list \<Rightarrow> py_error + bool" where
  "any_point b [] = Inr False"
| "any_point b (point # points) =
     (case point_check_game_end_gomoku b point of
        Inl e \<Rightarrow> Inl e
      | Inr True \<Rightarrow> Inr True
      | Inr False \<Rightarrow> any_point b points)"

definition check_game_end_gomoku :: "SimpleGoBoard \<Rightarrow> py_error + (bool \<times> color option)" where
  "check_game_end_gomoku b =
     (let white_points = where1d (\<lambda>c. c = WHITE) (board b);
          black_points = where1d (\<lambda>c. c = BLACK) (board b)
      in case any_point b white_points of
           Inl e \<Rightarrow> Inl e
         | Inr True \<Rightarrow> Inr (True, Some WHITE)
         | Inr False \<Rightarrow>
             (case any_point b black_points of
                Inl e \<Rightarrow> Inl e
              | Inr True \<Rightarrow> Inr (True, Some BLACK)
              | Inr False \<Rightarrow> Inr (False, None)))"

text \<open>
  A board as \<open>reset\<close> and the moves of a game leave it: the array has its length and
  the cells that hold \<open>BORDER\<close> are exactly the padding, that is, every cell but
  those of rows 1 to \<open>size\<close> and columns 1 to \<open>size\<close>.
\<close>

definition on_board :: "int \<Rightarrow> int \<Rightarrow> bool" where
  "on_board n i = (n + 1 < i \<and> i < (n + 1) * (n + 1) \<and> i mod (n + 1) \<noteq> 0)"

definition wf_board :: "SimpleGoBoard \<Rightarrow> bool" where
  "wf_board b =
     (2 \<le> size_b b \<and> NS b = size_b b + 1 \<and>
      int (length (board b)) = size_b b * size_b b + 3 * (size_b b + 1) \<and>
      (\<forall>i \<in> set [0..<length (board b)].
          (board b ! i \<noteq> BORDER) = on_board (size_b b) (int i)))"

text \<open>
  Five cells in a line from \<open>q\<close> on, \<open>s\<close> apart, all of color \<open>c\<close>; and a board that
  holds such a line in one of the four directions.
\<close>

definition five_from :: "SimpleGoBoard \<Rightarrow> color \<Rightarrow> int \<Rightarrow> int \<Rightarrow> bool" where
  "five_from b c q s = (\<forall>j \<in> set [0, 1, 2, 3, 4]. np_get (board b) (q + j * s) = Inr c)"

definition has_five :: "SimpleGoBoard \<Rightarrow> color \<Rightarrow> bool" where
  "has_five b c =
     (\<exists>q \<in> set (where1d (\<lambda>x. x = c) (board b)). \<exists>s \<in> set (shifts b). five_from b c q s)"

text \<open>
  For the proofs: the cells \<open>p + d\<close>, ..., \<open>p + k * d\<close> are in the array and hold \<open>c\<close>,
  the next one is in the array and holds something else.
\<close>

definition run_of :: "color list \<Rightarrow> color \<Rightarrow> int \<Rightarrow> int \<Rightarrow> nat \<Rightarrow> bool" where
  "run_of cells c p d k =
     ((\<forall>j. 1 \<le> j \<and> j \<le> int k \<longrightarrow>
           0 \<le> p + j * d \<and> p + j * d < int (length cells) \<and> cells ! nat (p + j * d) = c) \<and>
      0 \<le> p + (int k + 1) * d \<and> p + (int k + 1) * d < int (length cells) \<and>
      cells ! nat (p + (int k + 1) * d) \<noteq> c)"

section \<open>The line-window scan \<open>winDetection\<close>\<close>

text \<open>The two dictionaries of \<open>simple_board.py\<close>, in the order they are written.\<close>

definition winDict :: "(string \<times> bool) list" where
  "winDict =
     [(''x.xxx'', True), (''xx.xx'', True), (''xxx.x'', True), (''.xxxx'', True), (''xxxx.'', True),
      (''o.ooo'', False), (''oo.oo'', False), (''ooo.o'', False), (''.oooo'', False),
      (''oooo.'', False)]"

definition threatDict :: "(string \<times> (bool \<times> int)) list" where
  "threatDict =
     [(''.x.xx.'', (True, 3)), (''.xx.x.'', (True, 2)), (''.xxx..'', (True, 1)),
      (''..xxx.'', (True, 4)),
      (''.o.oo.'', (False, 3)), (''.oo.o.'', (False, 2)), (''.ooo..'', (False, 1)),
      (''..ooo.'', (False, 4))]"

definition getPointRep :: "SimpleGoBoard \<Rightarrow> color \<Rightarrow> int \<Rightarrow> py_error + char" where
  "getPointRep b cp point =
     (case np_get (board b) point of
        Inl e \<Rightarrow> Inl e
      | Inr v \<Rightarrow>
          Inr (if v = cp then CHR ''x''
               else if v = EMPTY then CHR ''.''
               else if v = BORDER then CHR ''#''
               else CHR ''o''))"

text \<open>
  \<open>checkThreat\<close> and \<open>checkWin\<close> append to one of two lists; here they return both
  lists, and \<open>checkWin\<close> its truth value as well (\<open>None\<close> counts as false).
  \<open>s.index(".")\<close> is the position of the first dot.
\<close>

definition checkThreat ::
    "(string \<times> (bool \<times> int)) list \<Rightarrow> string \<Rightarrow> int list \<Rightarrow> int list \<Rightarrow> int \<Rightarrow> int
       \<Rightarrow> int list \<times> int list" where
  "checkThreat d s cpList opList p step =
     (case map_of d s of
        None \<Rightarrow> (cpList, opList)
      | Some threat \<Rightarrow>
          if fst threat then (cpList @ [p - snd threat * step], opList)
          else (cpList, opList @ [p - snd threat * step]))"

definition str_index :: "string \<Rightarrow> char \<Rightarrow> int" where
  "str_index s c = int (length (takeWhile (\<lambda>x. x \<noteq> c) s))"

definition checkWin ::
    "(string \<times> bool) list \<Rightarrow> string \<Rightarrow> int list \<Rightarrow> int list \<Rightarrow> int \<Rightarrow> int
       \<Rightarrow> bool \<times> int list \<times> int list" where
  "checkWin d s cpList opList p step =
     (case map_of d s of
        None \<Rightarrow> (False, cpList, opList)
      | Some mine \<Rightarrow>
          (let p' = p + (str_index s CHR ''.'' - 4) * step
           in if mine then (True, cpList @ [p'], opList)
              else (False, cpList, opList @ [p'])))"

text \<open>
  The four result lists \<open>(myWins, theirWins, my2mWins, their2mWins)\<close>, and the two ways
  a part of \<open>winDetection\<close> ends: by its \<open>return\<close> statement or by going on with the
  state it has reached.
\<close>

type_synonym buckets = "int list \<times> int list \<times> int list \<times> int list"

datatype 'a flow = Return buckets | Next 'a

text \<open>
  The body that the four scans share, for one point of a line: extend the window
  string, look a window of six up in \<open>threatDict\<close> and cut it to five, look a window of
  five up in \<open>winDict\<close>, and return \<open>(myWins, [], [], [])\<close> on a win of the player to move.
\<close>

definition scan_point ::
    "SimpleGoBoard \<Rightarrow> int \<Rightarrow> int \<Rightarrow> string \<times> buckets \<Rightarrow> py_error + (string \<times> buckets) flow" where
  "scan_point b step point st =
     (case st of (winStr, myWins, theirWins, my2mWins, their2mWins) \<Rightarrow>
        (case getPointRep b (current_player b) point of
           Inl e \<Rightarrow> Inl e
         | Inr ch \<Rightarrow>
             (let winStr1 = winStr @ [ch];
                  (my2mWins', their2mWins') =
                     (if length winStr1 = 6
                      then checkThreat threatDict winStr1 my2mWins their2mWins point step
                      else (my2mWins, their2mWins));
                  winStr2 = (if length winStr1 = 6 then tl winStr1 else winStr1)
              in if length winStr2 = 5 then
                   (case checkWin winDict winStr2 myWins theirWins point step of
                      (won, myWins', theirWins') \<Rightarrow>
                        if won then Inr (Return (myWins', [], [], []))
                        else Inr (Next (winStr2, myWins', theirWins', my2mWins', their2mWins')))
                 else Inr (Next (winStr2, myWins, theirWins, my2mWins', their2mWins')))))"

fun scan_line ::
    "SimpleGoBoard \<Rightarrow> int \<Rightarrow> int list \<Rightarrow> string \<times> buckets \<Rightarrow> py_error + buckets flow" where
  "scan_line b step [] st = Inr (Next (snd st))"
| "scan_line b step (point # points) st =
     (case scan_point b step point st of
        Inl e \<Rightarrow> Inl e
      | Inr (Return r) \<Rightarrow> Inr (Return r)
      | Inr (Next st') \<Rightarrow> scan_line b step points st')"

text \<open>One scan: every line starts with the empty window string.\<close>

fun scan_lines ::
    "SimpleGoBoard \<Rightarrow> int \<Rightarrow> int list list \<Rightarrow> buckets \<Rightarrow> py_error + buckets flow" where
  "scan_lines b step [] bk = Inr (Next bk)"
| "scan_lines b step (line # lines) bk =
     (case scan_line b step line ([], bk) of
        Inl e \<Rightarrow> Inl e
      | Inr (Return r) \<Rightarrow> Inr (Return r)
      | Inr (Next bk') \<Rightarrow> scan_lines b step lines bk')"

text \<open>\<open>range(a, b, step)\<close> for a positive step.\<close>

definition py_range :: "int \<Rightarrow> int \<Rightarrow> int \<Rightarrow> int list" where
  "py_range a b step = map (\<lambda>k. a + int k * step) [0..<nat ((b - a + step - 1) div step)]"

text \<open>
  The start points of the diagonals: the loop \<open>for i in range(0, exists)\<close> appends two
  points and moves both on.
\<close>

fun diag_starts :: "nat \<Rightarrow> int \<Rightarrow> int \<Rightarrow> int \<Rightarrow> int \<Rightarrow> int list" where
  "diag_starts 0 first second d1 d2 = []"
| "diag_starts (Suc k) first second d1 d2 =
     first # second # diag_starts k (first + d1) (second + d2) d1 d2"

text \<open>
  The points of the diagonals: from each start \<open>dSize\<close> points, \<open>step\<close> apart; \<open>dSize\<close>
  goes down by one after every other start.
\<close>

fun diag_lines :: "int \<Rightarrow> int list \<Rightarrow> int \<Rightarrow> bool \<Rightarrow> int list list" where
  "diag_lines step [] dSize reduceDSize = []"
| "diag_lines step (start # starts) dSize reduceDSize =
     py_range start (start + dSize * step) step
       # diag_lines step starts (if reduceDSize then dSize - 1 else dSize) (\<not> reduceDSize)"

definition horizontal_lines :: "int \<Rightarrow> int list list" where
  "horizontal_lines n =
     map (\<lambda>rowStart. py_range rowStart (rowStart + n) 1)
       (py_range (n + 2) (n + 2 + n * n + 1) (n + 1))"

definition vertical_lines :: "int \<Rightarrow> int list list" where
  "vertical_lines n =
     map (\<lambda>colStart. py_range colStart (colStart + (n + 1) * (n - 1) + 1) (n + 1))
       (py_range (n + 2) (n + 2 + n) 1)"

definition diagonal_I_lines :: "int \<Rightarrow> int list list" where
  "diagonal_I_lines n =
     (let startPoint = n + 2;
          exists = n - 5;
          checkRight = startPoint + 1;
          checkDown = startPoint + n + 1;
          dIStarts = startPoint # diag_starts (nat exists) checkDown checkRight (n + 1) 1
      in diag_lines (n + 2) dIStarts n True)"

definition diagonal_II_lines :: "int \<Rightarrow> int list list" where
  "diagonal_II_lines n =
     (let startPoint = n + 2;
          checkLeft = startPoint + (n - 1) - 1;
          checkDown = startPoint + (n - 1) + (n + 1);
          exists = n - 5;
          dIIStarts = (startPoint + n - 1) # diag_starts (nat exists) checkLeft checkDown (- 1) (n + 1)
      in diag_lines n dIIStarts n True)"

definition winDetection :: "SimpleGoBoard \<Rightarrow> py_error + buckets" where
  "winDetection b =
     (let n = size_b b
      in case scan_lines b 1 (horizontal_lines n) ([], [], [], []) of
           Inl e \<Rightarrow> Inl e
         | Inr (Return r) \<Rightarrow> Inr r
         | Inr (Next bk1) \<Rightarrow>
        (case scan_lines b (n + 1) (vertical_lines n) bk1 of
           Inl e \<Rightarrow> Inl e
         | Inr (Return r) \<Rightarrow> Inr r
         | Inr (Next bk2) \<Rightarrow>
        (case scan_lines b (n + 2) (diagonal_I_lines n) bk2 of
           Inl e \<Rightarrow> Inl e
         | Inr (Return r) \<Rightarrow> Inr r
         | Inr (Next bk3) \<Rightarrow>
        (case scan_lines b n (diagonal_II_lines n) bk3 of
           Inl e \<Rightarrow> Inl e
         | Inr (Return r) \<Rightarrow> Inr r
         | Inr (Next bk4) \<Rightarrow> Inr bk4))))"

section \<open>The heuristic search \<open>negaAB\<close>\<close>

text \<open>
  \<open>get_heuristic_score\<close> is not valid Python as written (see the section on the
  heuristic score), so the searches take the leaf evaluation as a parameter \<open>h\<close>, a
  function of the board that changes nothing.
\<close>

definition WINNER_SCORE :: real where
  "WINNER_SCORE = 100000"

text \<open>What \<open>negaAB\<close> returns: the pair \<open>(score, move)\<close> and the board it leaves.\<close>

type_synonym nega_result = "py_error + ((real \<times> int option) \<times> SimpleGoBoard)"

text \<open>
  The forced block: put the stone, switch the player, search one ply less with the
  negated window, switch back, clear the cell, return the negated score and the point.
\<close>

definition forced_move ::
    "(SimpleGoBoard \<Rightarrow> real \<Rightarrow> real \<Rightarrow> int option \<Rightarrow> nega_result)
       \<Rightarrow> SimpleGoBoard \<Rightarrow> real \<Rightarrow> real \<Rightarrow> int \<Rightarrow> nega_result" where
  "forced_move rec b alpha beta point =
     (case np_set (board b) point (current_player b) of
        Inl e \<Rightarrow> Inl e
      | Inr cells \<Rightarrow>
          (let b1 = b\<lparr>board := cells, current_player := opponent (current_player b)\<rparr>
           in case rec b1 (- beta) (- alpha) (Some point) of
                Inl e \<Rightarrow> Inl e
              | Inr (result, b2) \<Rightarrow>
                  (let v = - fst result;
                       b3 = b2\<lparr>current_player := opponent (current_player b2)\<rparr>
                   in case np_set (board b3) point EMPTY of
                        Inl e \<Rightarrow> Inl e
                      | Inr cells' \<Rightarrow> Inr ((v, Some point), b3\<lparr>board := cells'\<rparr>))))"

text \<open>
  The \<open>while\<close> loop over the empty points, taken from the end of the array: the list
  argument is \<open>empty_points\<close> reversed, \<open>point\<close> is the variable of that name. The
  string \<open>bstr\<close> that the loop builds is never used and is left out.
\<close>

fun negaAB_loop ::
    "(SimpleGoBoard \<Rightarrow> real \<Rightarrow> real \<Rightarrow> int option \<Rightarrow> nega_result)
       \<Rightarrow> SimpleGoBoard \<Rightarrow> real \<Rightarrow> real \<Rightarrow> int list \<Rightarrow> int \<Rightarrow> nega_result" where
  "negaAB_loop rec b alpha beta [] point = Inr ((alpha, Some point), b)"
| "negaAB_loop rec b alpha beta (p # rest) point =
     (case np_set (board b) p (current_player b) of
        Inl e \<Rightarrow> Inl e
      | Inr cells \<Rightarrow>
          (let b1 = b\<lparr>board := cells\<rparr>
           in case point_check_game_end_gomoku b1 p of
                Inl e \<Rightarrow> Inl e
              | Inr True \<Rightarrow>
                  (case np_set (board b1) p EMPTY of
                     Inl e \<Rightarrow> Inl e
                   | Inr cells' \<Rightarrow> Inr ((1, Some p), b1\<lparr>board := cells'\<rparr>))
              | Inr False \<Rightarrow>
                  (let b2 = b1\<lparr>current_player := opponent (current_player b1)\<rparr>
                   in case rec b2 (- beta) (- alpha) (Some p) of
                        Inl e \<Rightarrow> Inl e
                      | Inr (result, b3) \<Rightarrow>
                          (let v = - fst result;
                               alpha' = (if v > alpha then v else alpha);
                               b4 = b3\<lparr>current_player := opponent (current_player b3)\<rparr>
                           in case np_set (board b4) p EMPTY of
                                Inl e \<Rightarrow> Inl e
                              | Inr cells' \<Rightarrow>
                                  (let b5 = b4\<lparr>board := cells'\<rparr>
                                   in if v \<ge> beta then Inr ((beta, Some p), b5)
                                      else negaAB_loop rec b5 alpha' beta rest p)))))"

text \<open>
  \<open>negaAB(alpha, beta, d, prev_move)\<close> for a depth \<open>d\<close> counted down to 0. The part
  after the two first returns is \<open>negaAB_body\<close>, with the search one ply deeper as
  \<open>rec\<close>.
\<close>

definition negaAB_body ::
    "(SimpleGoBoard \<Rightarrow> real \<Rightarrow> real \<Rightarrow> int option \<Rightarrow> nega_result)
       \<Rightarrow> SimpleGoBoard \<Rightarrow> real \<Rightarrow> real \<Rightarrow> nega_result" where
  "negaAB_body rec b alpha beta =
     (let empty_points = get_empty_points b
      in if length empty_points = 0 then Inr ((0, None), b)
         else
           (let point = empty_points ! 0
            in case winDetection b of
                 Inl e \<Rightarrow> Inl e
               | Inr (myWins, theirWins, my2mWins, their2mWins) \<Rightarrow>
                   if length myWins > 0 then Inr ((1, Some (myWins ! 0)), b)
                   else if length theirWins > 1 then Inr ((- 1, Some (theirWins ! 0)), b)
                   else if length theirWins = 1 then
                     (if length their2mWins > 0 then Inr ((- 1, Some (theirWins ! 0)), b)
                      else forced_move rec b alpha beta (theirWins ! 0))
                   else if length my2mWins > 0 then Inr ((1, Some (my2mWins ! 0)), b)
                   else if length their2mWins > 1 then Inr ((- 1, Some (their2mWins ! 0)), b)
                   else if length their2mWins = 1 then
                     forced_move rec b alpha beta (their2mWins ! 0)
                   else negaAB_loop rec b alpha beta (rev empty_points) point))"

fun negaAB ::
    "(SimpleGoBoard \<Rightarrow> real) \<Rightarrow> nat \<Rightarrow> SimpleGoBoard \<Rightarrow> real \<Rightarrow> real \<Rightarrow> int option
       \<Rightarrow> nega_result" where
  "negaAB h 0 b alpha beta prev_move =
     (let score = h b
      in if score > best_move_score b then
           (let b' = b\<lparr>best_move_score := score, best_move := prev_move\<rparr>
            in if score = WINNER_SCORE then Inr ((1, prev_move), b')
               else if score = - WINNER_SCORE then Inr ((- 1, prev_move), b')
               else Inr ((0, None), b'))
         else Inr ((0, None), b))"
| "negaAB h (Suc d) b alpha beta prev_move = negaAB_body (negaAB h d) b alpha beta"

section \<open>The recursive scan \<open>list_solve_point\<close>\<close>

text \<open>
  A pattern table maps a line signature to the distances of its move points; the list
  holds the four tables of \<open>list_solve_point\<close> in their order: win, block a win,
  make an open four, block an open four.
\<close>

type_synonym pattern_table = "(string \<times> int list) list"

definition solve_patterns :: "pattern_table list" where
  "solve_patterns =
     [[(''xxxx.'', [0]), (''xxx.x'', [1]), (''xx.xx'', [2]), (''x.xxx'', [3]), (''.xxxx'', [4])],
      [(''oooo.'', [0]), (''ooo.o'', [1]), (''oo.oo'', [2]), (''o.ooo'', [3]), (''.oooo'', [4])],
      [(''.xxx..'', [1]), (''..xxx.'', [4]), (''.xx.x.'', [2]), (''.x.xx.'', [3])],
      [(''.ooo..'', [1, 5]), (''..ooo.'', [0, 4]), (''.oo.o.'', [2]), (''.o.oo.'', [3])]]"

text \<open>
  The loop \<open>for i in range(0,4)\<close> of \<open>check_pattern\<close>: the first table that knows the
  signature adds its move points to its own set, and the loop breaks.
\<close>

fun match_patterns ::
    "pattern_table list \<Rightarrow> int set list \<Rightarrow> string \<Rightarrow> (int \<Rightarrow> int) \<Rightarrow> int set list" where
  "match_patterns (table # tables) (m # ms) have move =
     (case map_of table have of
        Some ds \<Rightarrow> (m \<union> move ` set ds) # ms
      | None \<Rightarrow> m # match_patterns tables ms have move)"
| "match_patterns tables ms have move = ms"

text \<open>The character \<open>check_pattern\<close> writes for a cell value.\<close>

definition piece_char :: "color \<Rightarrow> color \<Rightarrow> char" where
  "piece_char color piece =
     (if piece = EMPTY then CHR ''.''
      else if piece = color then CHR ''x''
      else if piece = BORDER then CHR ''B''
      else CHR ''o'')"

text \<open>
  \<open>check_pattern\<close> walks from \<open>point\<close> in the direction \<open>(direction_x, direction_y)\<close>,
  one character of the signature per call. It returns nothing and changes \<open>moveSet\<close>;
  here it returns the sets. \<open>None\<close> is a recursion that does not end. The argument
  \<open>flag\<close> is never set and is left out.
\<close>

partial_function (option) check_pattern ::
    "SimpleGoBoard \<Rightarrow> int \<Rightarrow> string \<Rightarrow> int \<Rightarrow> int \<Rightarrow> int set list \<Rightarrow> pattern_table list \<Rightarrow> color
       \<Rightarrow> int set list option" where
  "check_pattern b point have direction_x direction_y moveSet patternList color =
     (let moveSet' = match_patterns patternList moveSet have
            (\<lambda>dis. point - direction_x * (dis + 1) - direction_y * NS b * (dis + 1))
      in if \<not> (0 \<le> point \<and> point < int (length (board b))) \<or> length have = 9
         then Some moveSet'
         else
           (let piece = piece_char color (board b ! nat point)
            in check_pattern b (point + direction_x + direction_y * NS b) (have @ [piece])
                 direction_x direction_y moveSet' patternList color))"

declare check_pattern.simps [code]

text \<open>The two nested loops over the start points and the four directions.\<close>

fun check_starts ::
    "SimpleGoBoard \<Rightarrow> (int \<times> int \<times> int) list \<Rightarrow> int set list \<Rightarrow> pattern_table list \<Rightarrow> color
       \<Rightarrow> int set list option" where
  "check_starts b [] moveSet patternList color = Some moveSet"
| "check_starts b ((point, direction_x, direction_y) # rest) moveSet patternList color =
     (case check_pattern b point [] direction_x direction_y moveSet patternList color of
        None \<Rightarrow> None
      | Some moveSet' \<Rightarrow> check_starts b rest moveSet' patternList color)"

definition directions :: "(int \<times> int) list" where
  "directions = zip [1, 0, 1, - 1] [0, 1, 1, 1]"

definition solve_starts :: "SimpleGoBoard \<Rightarrow> (int \<times> int \<times> int) list" where
  "solve_starts b =
     concat (map (\<lambda>point. map (\<lambda>(dx, dy). (point, dx, dy)) directions)
       (where1d (\<lambda>c. c \<noteq> BORDER) (board b)))"

text \<open>
  \<open>list_solve_point\<close> returns \<open>list(moveSet[i])\<close> for the first set that is not empty.
  The order in which Python lists the elements of a set is not fixed by the language;
  it is the parameter \<open>set_order\<close>.
\<close>

definition list_solve_point ::
    "(int set \<Rightarrow> int list) \<Rightarrow> SimpleGoBoard \<Rightarrow> py_error + int list option" where
  "list_solve_point set_order b =
     (case check_starts b (solve_starts b) [{}, {}, {}, {}] solve_patterns (current_player b) of
        None \<Rightarrow> Inl NonTermination
      | Some moveSet \<Rightarrow>
          (case dropWhile (\<lambda>s. s = {}) moveSet of
             [] \<Rightarrow> Inr None
           | s # _ \<Rightarrow> Inr (Some (set_order s))))"

text \<open>
  What the four sets hold, said without the recursion: \<open>fits\<close> is a signature read
  off the cells from \<open>q\<close> on, \<open>step\<close> apart, all inside the array; a tier is the set of
  the move points of every pattern of a table on every start point and direction.
\<close>

definition fits :: "SimpleGoBoard \<Rightarrow> color \<Rightarrow> int \<Rightarrow> int \<Rightarrow> string \<Rightarrow> bool" where
  "fits b color q step pat =
     (\<forall>j \<in> set [0..<length pat].
         0 \<le> q + int j * step \<and> q + int j * step < int (length (board b)) \<and>
         piece_char color (board b ! nat (q + int j * step)) = pat ! j)"

definition tier_list :: "SimpleGoBoard \<Rightarrow> color \<Rightarrow> pattern_table \<Rightarrow> int list" where
  "tier_list b color table =
     concat (map (\<lambda>(q, dx, dy).
        concat (map (\<lambda>(pat, ds).
           if fits b color q (dx + dy * NS b) pat
           then map (\<lambda>dis. q + (int (length pat) - 1 - dis) * (dx + dy * NS b)) ds
           else []) table)) (solve_starts b))"

definition tier :: "SimpleGoBoard \<Rightarrow> color \<Rightarrow> pattern_table \<Rightarrow> int set" where
  "tier b color table = set (tier_list b color table)"

text \<open>For the proofs: the walk of \<open>check_pattern\<close> with the number of calls left made explicit.\<close>

fun walk_sets ::
    "nat \<Rightarrow> SimpleGoBoard \<Rightarrow> int \<Rightarrow> string \<Rightarrow> int \<Rightarrow> int \<Rightarrow> int set list \<Rightarrow> pattern_table list \<Rightarrow> color
       \<Rightarrow> int set list" where
  "walk_sets 0 b point have dx dy ms pl color =
     match_patterns pl ms have (\<lambda>dis. point - dx * (dis + 1) - dy * NS b * (dis + 1))"
| "walk_sets (Suc k) b point have dx dy ms pl color =
     (let ms' = match_patterns pl ms have (\<lambda>dis. point - dx * (dis + 1) - dy * NS b * (dis + 1))
      in if \<not> (0 \<le> point \<and> point < int (length (board b))) then ms'
         else walk_sets k b (point + dx + dy * NS b)
                (have @ [piece_char color (board b ! nat point)]) dx dy ms' pl color)"

definition hits :: "pattern_table \<Rightarrow> string \<Rightarrow> (int \<Rightarrow> int) \<Rightarrow> int set" where
  "hits table s move = (case map_of table s of Some ds \<Rightarrow> move ` set ds | None \<Rightarrow> {})"

definition disjoint_tables :: "pattern_table list \<Rightarrow> bool" where
  "disjoint_tables pl =
     (\<forall>i < length pl. \<forall>j < length pl. i \<noteq> j \<longrightarrow> fst ` set (pl ! i) \<inter> fst ` set (pl ! j) = {})"

definition in_range_run :: "SimpleGoBoard \<Rightarrow> int \<Rightarrow> int \<Rightarrow> nat \<Rightarrow> bool" where
  "in_range_run b q step j =
     (\<forall>j' < j. 0 \<le> q + int j' * step \<and> q + int j' * step < int (length (board b)))"

definition signature :: "SimpleGoBoard \<Rightarrow> color \<Rightarrow> int \<Rightarrow> int \<Rightarrow> nat \<Rightarrow> string" where
  "signature b color q step j =
     map (\<lambda>j'. piece_char color (board b ! nat (q + int j' * step))) [0..<j]"

definition good_tables :: "pattern_table list \<Rightarrow> bool" where
  "good_tables pl =
     (disjoint_tables pl \<and>
      (\<forall>t \<in> set pl. distinct (map fst t) \<and> (\<forall>(pat, ds) \<in> set t. length pat \<le> 9)))"

section \<open>The solver of \<open>alphabeta.py\<close>\<close>

definition START_DEPTH :: int where
  "START_DEPTH = 2"

definition INFINITY :: real where
  "INFINITY = 10000000000"

definition game_end :: "SimpleGoBoard \<Rightarrow> py_error + real option" where
  "game_end b =
     (case check_game_end_gomoku b of
        Inl e \<Rightarrow> Inl e
      | Inr (ended, winner) \<Rightarrow>
          (let moves = get_empty_points b;
               board_full = (length moves = 0)
           in if ended then
                Inr (Some (if winner = Some (current_player b) then INFINITY else - INFINITY))
              else if board_full then Inr (Some 0)
              else Inr None))"

text \<open>
  Modelled from the spec: \<open>GoBoardUtil.generate_legal_moves_gomoku\<close> of \<open>board_util\<close>
  is not among the sources; the search is said to "enumerate all remaining legal
  (empty) points", so the legal moves are the empty points in ascending order.
\<close>

definition generate_legal_moves_gomoku :: "SimpleGoBoard \<Rightarrow> int list" where
  "generate_legal_moves_gomoku b = get_empty_points b"

text \<open>What \<open>alphabeta\<close> returns: the value and the board it leaves.\<close>

type_synonym ab_result = "py_error + (real \<times> SimpleGoBoard)"

text \<open>
  One move of the search, the same statements for the forced move and inside the loop:
  play the point for the player to move, search the reply with the negated window one
  ply deeper, undo. It gives \<open>result\<close> and the board after the undo.
\<close>

definition try_move ::
    "(SimpleGoBoard \<Rightarrow> real \<Rightarrow> real \<Rightarrow> int \<Rightarrow> ab_result)
       \<Rightarrow> SimpleGoBoard \<Rightarrow> real \<Rightarrow> real \<Rightarrow> int \<Rightarrow> int \<Rightarrow> ab_result" where
  "try_move rec b alpha beta d m =
     (case play_move_gomoku b (Some m) (current_player b) of
        Inl e \<Rightarrow> Inl e
      | Inr (ok, b1) \<Rightarrow>
          (case rec b1 (- beta) (- alpha) (d - 1) of
             Inl e \<Rightarrow> Inl e
           | Inr (r, b2) \<Rightarrow>
               (case undo b2 m of
                  Inl e \<Rightarrow> Inl e
                | Inr b3 \<Rightarrow> Inr (- r, b3))))"

text \<open>The loop \<open>for m in GoBoardUtil.generate_legal_moves_gomoku(board)\<close> of \<open>alphabeta\<close>.\<close>

fun alphabeta_loop ::
    "(SimpleGoBoard \<Rightarrow> real \<Rightarrow> real \<Rightarrow> int \<Rightarrow> ab_result)
       \<Rightarrow> SimpleGoBoard \<Rightarrow> real \<Rightarrow> real \<Rightarrow> int \<Rightarrow> int list \<Rightarrow> ab_result" where
  "alphabeta_loop rec b alpha beta d [] = Inr (alpha, b)"
| "alphabeta_loop rec b alpha beta d (m # ms) =
     (case try_move rec b alpha beta d m of
        Inl e \<Rightarrow> Inl e
      | Inr (result, b') \<Rightarrow>
          (let alpha' = (if result > alpha then result else alpha)
           in if result \<ge> beta then Inr (beta, b')
              else alphabeta_loop rec b' alpha' beta d ms))"

text \<open>
  \<open>alphabeta(board, alpha, beta, d)\<close>. The first argument after the two parameters is
  the number of nested calls the interpreter still allows: Python raises
  \<open>RecursionError\<close> when its recursion limit is reached.
\<close>

fun alphabeta ::
    "(int set \<Rightarrow> int list) \<Rightarrow> (SimpleGoBoard \<Rightarrow> real) \<Rightarrow> nat
       \<Rightarrow> SimpleGoBoard \<Rightarrow> real \<Rightarrow> real \<Rightarrow> int \<Rightarrow> ab_result" where
  "alphabeta set_order h 0 b alpha beta d = Inl RecursionError"
| "alphabeta set_order h (Suc limit) b alpha beta d =
     (case game_end b of
        Inl e \<Rightarrow> Inl e
      | Inr (Some result) \<Rightarrow> Inr (result, b)
      | Inr None \<Rightarrow>
          (case list_solve_point set_order b of
             Inl e \<Rightarrow> Inl e
           | Inr (Some (p # ps)) \<Rightarrow>
               (case try_move (alphabeta set_order h limit) b alpha beta d p of
                  Inl e \<Rightarrow> Inl e
                | Inr (result, b') \<Rightarrow>
                    (let alpha' = (if result > alpha then result else alpha)
                     in if result \<ge> beta then Inr (beta, b') else Inr (alpha', b')))
           | Inr _ \<Rightarrow>
               if d \<le> 0 then Inr (h b, b)
               else alphabeta_loop (alphabeta set_order h limit) b alpha beta d
                      (generate_legal_moves_gomoku b)))"

text \<open>
  \<open>solve(board, sboard)\<close> returns a pair whose second part is \<open>"First"\<close>, a point or
  \<open>"NoMove"\<close>; the three shapes are the constructors of \<open>solve_answer\<close>. It changes
  \<open>sboard\<close> through \<open>set_best_move\<close>; the \<open>print\<close> of the loop is left out.
\<close>

datatype solve_answer = First real | Win int | NoMove bool

definition set_best_move :: "SimpleGoBoard \<Rightarrow> real \<Rightarrow> int option \<Rightarrow> SimpleGoBoard" where
  "set_best_move b score move = b\<lparr>best_move_score := score, best_move := move\<rparr>"

fun solve_loop ::
    "(SimpleGoBoard \<Rightarrow> real \<Rightarrow> real \<Rightarrow> int \<Rightarrow> ab_result)
       \<Rightarrow> SimpleGoBoard \<Rightarrow> SimpleGoBoard \<Rightarrow> bool \<Rightarrow> int list
       \<Rightarrow> py_error + (solve_answer \<times> SimpleGoBoard \<times> SimpleGoBoard)" where
  "solve_loop rec b sboard haveDraw [] = Inr (NoMove haveDraw, b, sboard)"
| "solve_loop rec b sboard haveDraw (m # ms) =
     (case try_move rec b (- INFINITY) INFINITY (START_DEPTH + 1) m of
        Inl e \<Rightarrow> Inl e
      | Inr (result, b') \<Rightarrow>
          if result = INFINITY then Inr (Win m, b', sboard)
          else if result > best_move_score sboard
          then solve_loop rec b' (set_best_move sboard result (Some m)) haveDraw ms
          else solve_loop rec b' sboard haveDraw ms)"

definition solve ::
    "(int set \<Rightarrow> int list) \<Rightarrow> (SimpleGoBoard \<Rightarrow> real) \<Rightarrow> nat \<Rightarrow> SimpleGoBoard \<Rightarrow> SimpleGoBoard
       \<Rightarrow> py_error + (solve_answer \<times> SimpleGoBoard \<times> SimpleGoBoard)" where
  "solve set_order h limit b sboard =
     (case game_end b of
        Inl e \<Rightarrow> Inl e
      | Inr (Some result) \<Rightarrow> Inr (First result, b, sboard)
      | Inr None \<Rightarrow>
          (let sboard1 = set_best_move sboard (- INFINITY) None
           in case list_solve_point set_order b of
                Inl e \<Rightarrow> Inl e
              | Inr (Some (p # ps)) \<Rightarrow>
                  (case try_move (alphabeta set_order h limit) b (- INFINITY) INFINITY
                          (START_DEPTH + 1) p of
                     Inl e \<Rightarrow> Inl e
                   | Inr (result, b') \<Rightarrow>
                       if result = INFINITY then Inr (Win p, b', sboard1)
                       else if result = 0 then Inr (NoMove True, b', sboard1)
                       else Inr (NoMove False, b', sboard1))
              | Inr _ \<Rightarrow>
                  solve_loop (alphabeta set_order h limit) b sboard1 False
                    (generate_legal_moves_gomoku b)))"

text \<open>
  For the proofs: the board after the player to move has put a stone on \<open>m\<close>, what
  \<open>play_move_gomoku(m, current_player)\<close> leaves on an empty point.
\<close>

definition after_move :: "SimpleGoBoard \<Rightarrow> int \<Rightarrow> SimpleGoBoard" where
  "after_move b m =
     b\<lparr>board := (board b)[nat m := current_player b],
       current_player := opponent (current_player b)\<rparr>"

text \<open>
  For the proofs: the window string holds what was read from the last points before
  \<open>pt\<close>, the newest last; and every point of the four lists is an empty cell.
\<close>

definition window_reads :: "SimpleGoBoard \<Rightarrow> string \<Rightarrow> int \<Rightarrow> int \<Rightarrow> bool" where
  "window_reads b w pt step =
     (\<forall>k < length w.
         getPointRep b (current_player b) (pt - (int k + 1) * step) = Inr (rev w ! k))"

definition empty_points_only :: "SimpleGoBoard \<Rightarrow> buckets \<Rightarrow> bool" where
  "empty_points_only b bk =
     (case bk of (l1, l2, l3, l4) \<Rightarrow>
        \<forall>p \<in> set l1 \<union> set l2 \<union> set l3 \<union> set l4. np_get (board b) p = Inr EMPTY)"

definition ap_list :: "int \<Rightarrow> int \<Rightarrow> int list \<Rightarrow> bool" where
  "ap_list a step pts = (pts = map (\<lambda>i. a + int i * step) [0..<length pts])"

text \<open>
  Two boards that are the same position: they differ at most in the fields
  \<open>best_move\<close> and \<open>best_move_score\<close>.
\<close>

definition same_position :: "SimpleGoBoard \<Rightarrow> SimpleGoBoard \<Rightarrow> bool" where
  "same_position b' b =
     (board b' = board b \<and> current_player b' = current_player b \<and>
      size_b b' = size_b b \<and> NS b' = NS b)"

text \<open>
  For the proofs: the points \<open>a\<close>, \<open>a + step\<close>, ..., \<open>m\<close> of them; the index of the cell
  in row \<open>r\<close> and column \<open>c\<close>; and the lines each of the four scans of \<open>winDetection\<close>
  walks, as triples of the row and column of the first point and the length.
\<close>

definition ap :: "int \<Rightarrow> int \<Rightarrow> nat \<Rightarrow> int list" where
  "ap a step m = map (\<lambda>i. a + int i * step) [0..<m]"

definition rc :: "int \<Rightarrow> int \<Rightarrow> int \<Rightarrow> int" where
  "rc n r c = r * (n + 1) + c"

text \<open>
  What \<open>winDetection\<close> reads and reports, said without the loops: the character of a
  cell inside the array, the window string of \<open>L\<close> cells from \<open>q\<close> on, and the points that
  the window of five and the window of six ending at \<open>pt\<close> add to the list of the
  player to move (\<open>mine\<close>) or of the opponent.
\<close>

definition point_rep :: "SimpleGoBoard \<Rightarrow> int \<Rightarrow> char" where
  "point_rep b p =
     (let v = board b ! nat p
      in if v = current_player b then CHR ''x''
         else if v = EMPTY then CHR ''.''
         else if v = BORDER then CHR ''#''
         else CHR ''o'')"

definition window :: "SimpleGoBoard \<Rightarrow> int \<Rightarrow> int \<Rightarrow> nat \<Rightarrow> string" where
  "window b q step L = map (\<lambda>j. point_rep b (q + int j * step)) [0..<L]"

definition win_at :: "SimpleGoBoard \<Rightarrow> int \<Rightarrow> int \<Rightarrow> bool \<Rightarrow> int set" where
  "win_at b step pt mine =
     (let s = window b (pt - 4 * step) step 5
      in if map_of winDict s = Some mine then {pt + (str_index s CHR ''.'' - 4) * step} else {})"

definition threat_at :: "SimpleGoBoard \<Rightarrow> int \<Rightarrow> int \<Rightarrow> bool \<Rightarrow> int set" where
  "threat_at b step pt mine =
     (case map_of threatDict (window b (pt - 5 * step) step 6) of
        None \<Rightarrow> {}
      | Some threat \<Rightarrow> if fst threat = mine then {pt - snd threat * step} else {})"

text \<open>
  The points that a line adds when the scan enters it with a window string of \<open>k\<close>
  characters, and the points that the lines of one scan add.
\<close>

definition line_wins :: "SimpleGoBoard \<Rightarrow> int \<Rightarrow> int list \<Rightarrow> nat \<Rightarrow> bool \<Rightarrow> int set" where
  "line_wins b step pts k mine =
     {x. \<exists>t < length pts. 4 \<le> t + k \<and> x \<in> win_at b step (pts ! t) mine}"

definition line_threats :: "SimpleGoBoard \<Rightarrow> int \<Rightarrow> int list \<Rightarrow> nat \<Rightarrow> bool \<Rightarrow> int set" where
  "line_threats b step pts k mine =
     {x. \<exists>t < length pts. 5 \<le> t + k \<and> x \<in> threat_at b step (pts ! t) mine}"

definition scan_wins :: "SimpleGoBoard \<Rightarrow> int \<Rightarrow> int list list \<Rightarrow> bool \<Rightarrow> int set" where
  "scan_wins b step lines mine = (\<Union>line \<in> set lines. line_wins b step line 0 mine)"

definition scan_threats :: "SimpleGoBoard \<Rightarrow> int \<Rightarrow> int list list \<Rightarrow> bool \<Rightarrow> int set" where
  "scan_threats b step lines mine = (\<Union>line \<in> set lines. line_threats b step line 0 mine)"

text \<open>The points that the four scans of \<open>winDetection\<close> add together.\<close>

definition all_wins :: "SimpleGoBoard \<Rightarrow> bool \<Rightarrow> int set" where
  "all_wins b mine =
     (let n = size_b b
      in scan_wins b 1 (horizontal_lines n) mine \<union> scan_wins b (n + 1) (vertical_lines n) mine \<union>
         scan_wins b (n + 2) (diagonal_I_lines n) mine \<union> scan_wins b n (diagonal_II_lines n) mine)"

definition all_threats :: "SimpleGoBoard \<Rightarrow> bool \<Rightarrow> int set" where
  "all_threats b mine =
     (let n = size_b b
      in scan_threats b 1 (horizontal_lines n) mine \<union>
         scan_threats b (n + 1) (vertical_lines n) mine \<union>
         scan_threats b (n + 2) (diagonal_I_lines n) mine \<union>
         scan_threats b n (diagonal_II_lines n) mine)"

definition readable_lines :: "SimpleGoBoard \<Rightarrow> int \<Rightarrow> int list list \<Rightarrow> bool" where
  "readable_lines b step lines =
     (\<forall>line \<in> set lines.
         ap_list (hd line) step line \<and> (\<forall>p \<in> set line. on_board (size_b b) p))"

section \<open>Basic facts\<close>

lemma opponent_opponent: "opponent (opponent c) = c"
  by (cases c) simp_all

lemma np_index_bound: "np_index xs i = Some k \<Longrightarrow> k < length xs"
  by (auto simp: np_index_def Let_def split: if_splits)

lemma np_index_nonneg: "0 \<le> i \<Longrightarrow> i < int (length xs) \<Longrightarrow> np_index xs i = Some (nat i)"
  by (simp add: np_index_def)

lemma np_index_update: "np_index (xs[k := v]) i = np_index xs i"
  by (simp add: np_index_def)

lemma np_get_nonneg: "0 \<le> i \<Longrightarrow> i < int (length xs) \<Longrightarrow> np_get xs i = Inr (xs ! nat i)"
  by (simp add: np_get_def np_index_nonneg)

lemma np_set_nonneg: "0 \<le> i \<Longrightarrow> i < int (length xs) \<Longrightarrow> np_set xs i v = Inr (xs[nat i := v])"
  by (simp add: np_set_def np_index_nonneg)

section \<open>Playing a move\<close>

text \<open>
  C9. For a player color and a point of the array, \<open>play_move_gomoku\<close> returns
  \<open>False\<close> and the board as it was when the cell is occupied; otherwise it returns
  \<open>True\<close>, the cell holds the color, the opponent is to move, every other cell and
  every other field is as before, so no stone is removed.
\<close>

theorem play_move_gomoku_spec:
  assumes bw: "is_black_white c" and idx: "np_index (board b) p = Some k"
  shows "(board b ! k \<noteq> EMPTY \<longrightarrow> play_move_gomoku b (Some p) c = Inr (False, b)) \<and>
         (board b ! k = EMPTY \<longrightarrow>
            (\<exists>b'. play_move_gomoku b (Some p) c = Inr (True, b') \<and>
                  board b' = (board b)[k := c] \<and>
                  board b' ! k = c \<and>
                  current_player b' = opponent c \<and>
                  b' = b\<lparr>board := board b', current_player := opponent c\<rparr> \<and>
                  (\<forall>j < length (board b). j \<noteq> k \<longrightarrow> board b' ! j = board b ! j) \<and>
                  (\<forall>j < length (board b). board b ! j \<noteq> EMPTY \<longrightarrow> board b' ! j \<noteq> EMPTY)))"
proof -
  from idx have k: "k < length (board b)" by (rule np_index_bound)
  have occupied: "board b ! k \<noteq> EMPTY \<longrightarrow> play_move_gomoku b (Some p) c = Inr (False, b)"
    using bw idx by (simp add: play_move_gomoku_def np_get_def)
  have free: "board b ! k = EMPTY \<longrightarrow>
      play_move_gomoku b (Some p) c
        = Inr (True, b\<lparr>board := (board b)[k := c], current_player := opponent c\<rparr>)"
    using bw idx by (simp add: play_move_gomoku_def np_get_def np_set_def)
  have stones: "\<forall>j < length (board b). board b ! j \<noteq> EMPTY \<longrightarrow> (board b)[k := c] ! j \<noteq> EMPTY"
  proof (intro allI impI)
    fix j
    assume "j < length (board b)" and "board b ! j \<noteq> EMPTY"
    with bw show "(board b)[k := c] ! j \<noteq> EMPTY"
      by (cases "j = k") (auto simp: is_black_white_def)
  qed
  from occupied free stones k show ?thesis by simp
qed

theorem play_move_gomoku_spec_witness:
  "play_move_gomoku (reset 2) (Some 4) BLACK
     = Inr (True, (reset 2)\<lparr>board := (board (reset 2))[4 := BLACK], current_player := WHITE\<rparr>) \<and>
   play_move_gomoku (reset 2) (Some 0) BLACK = Inr (False, reset 2)"
proof -
  have bw: "is_black_white BLACK" by (simp add: is_black_white_def)
  have i4: "np_index (board (reset 2)) 4 = Some 4" by code_simp
  have i0: "np_index (board (reset 2)) 0 = Some 0" by code_simp
  have c4: "board (reset 2) ! 4 = EMPTY" by code_simp
  have c0: "board (reset 2) ! 0 \<noteq> EMPTY" by code_simp
  from play_move_gomoku_spec [OF bw i4] c4 play_move_gomoku_spec [OF bw i0] c0
  show ?thesis by auto
qed

text \<open>
  C6, as stated, at a color that is not the player to move: on the empty 2x2 board
  Black is to move; after \<open>play_move_gomoku(4, WHITE)\<close> and \<open>undo(4)\<close> the cells
  are as before but White is to move.
\<close>

theorem play_then_undo_counterexample:
  "is_black_white WHITE \<and> np_get (board (reset 2)) 4 = Inr EMPTY \<and>
   current_player (reset 2) = BLACK \<and>
   play_then_undo (reset 2) 4 WHITE = Inr ((reset 2)\<lparr>current_player := WHITE\<rparr>)"
  by code_simp

lemma play_move_gomoku_empty:
  assumes "is_black_white c" and "np_index (board b) p = Some k" and "board b ! k = EMPTY"
  shows "play_move_gomoku b (Some p) c
           = Inr (True, b\<lparr>board := (board b)[k := c], current_player := opponent c\<rparr>)"
  using assms by (simp add: play_move_gomoku_def np_get_def np_set_def)

lemma undo_played:
  assumes "np_index (board b) p = Some k" and "board b ! k = EMPTY"
  shows "undo (b\<lparr>board := (board b)[k := c], current_player := opponent (current_player b)\<rparr>) p
           = Inr b"
proof -
  have "(board b)[k := c, k := EMPTY] = board b"
    using assms(2) by (metis list_update_id list_update_overwrite)
  then show ?thesis
    using assms(1) by (simp add: undo_def np_set_def np_index_update opponent_opponent)
qed

text \<open>
  C6, amended: for the color of the player to move and an empty cell of the array,
  \<open>play_move_gomoku(p, c)\<close> followed by \<open>undo(p)\<close> gives back the board as it was,
  cells, \<open>current_player\<close> and every other field.
\<close>

theorem play_then_undo_restores:
  assumes bw: "is_black_white c" and cur: "current_player b = c"
    and idx: "np_index (board b) p = Some k" and empty: "board b ! k = EMPTY"
  shows "play_then_undo b p c = Inr b"
  using play_move_gomoku_empty [OF bw idx empty] undo_played [OF idx empty, of c] cur
  by (simp add: play_then_undo_def)

theorem play_then_undo_restores_witness:
  "play_then_undo (reset 2) 4 BLACK = Inr (reset 2)"
proof -
  have bw: "is_black_white BLACK" by (simp add: is_black_white_def)
  have cur: "current_player (reset 2) = BLACK" by (simp add: reset_def)
  have idx: "np_index (board (reset 2)) 4 = Some 4" by code_simp
  have empty: "board (reset 2) ! 4 = EMPTY" by code_simp
  show ?thesis by (rule play_then_undo_restores [OF bw cur idx empty])
qed

section \<open>Terminal detection: five in a line or more\<close>

lemma count_loop_run:
  assumes "\<And>j. 1 \<le> j \<Longrightarrow> j \<le> int k \<Longrightarrow> np_get cells (p + j * d) = Inr color"
    and "np_get cells (p + (int k + 1) * d) = Inr v" and "v \<noteq> color"
    and "count + int k < 5 \<or> 5 \<le> count"
  shows "count_loop cells color d p count = Some (Inr (count + int k))"
  using assms
proof (induction k arbitrary: p count)
  case 0
  then show ?case by (subst count_loop.simps) simp
next
  case (Suc k)
  have first: "np_get cells (p + d) = Inr color"
    using Suc.prems(1) [of 1] by simp
  have rest: "\<And>j. 1 \<le> j \<Longrightarrow> j \<le> int k \<Longrightarrow> np_get cells (p + d + j * d) = Inr color"
  proof -
    fix j :: int
    assume "1 \<le> j" and "j \<le> int k"
    then have "np_get cells (p + (j + 1) * d) = Inr color"
      by (intro Suc.prems(1)) auto
    then show "np_get cells (p + d + j * d) = Inr color"
      by (simp add: algebra_simps)
  qed
  have last: "np_get cells (p + d + (int k + 1) * d) = Inr v"
    using Suc.prems(2) by (simp add: algebra_simps)
  have bound: "count + 1 + int k < 5 \<or> 5 \<le> count + 1"
    using Suc.prems(4) by auto
  have "count_loop cells color d (p + d) (count + 1) = Some (Inr (count + 1 + int k))"
    by (rule Suc.IH [OF rest last Suc.prems(3) bound])
  moreover have "count + 1 \<noteq> 5"
    using Suc.prems(4) by auto
  ultimately show ?case
    using first by (subst count_loop.simps) simp
qed

lemma count_loop_cap:
  assumes "count < 5" and "0 < count"
    and "\<And>j. 1 \<le> j \<Longrightarrow> j \<le> 5 - count \<Longrightarrow> np_get cells (p + j * d) = Inr color"
  shows "count_loop cells color d p count = Some (Inr 5)"
  using assms
proof (induction "nat (5 - count)" arbitrary: p count)
  case 0
  then show ?case by simp
next
  case (Suc m)
  have first: "np_get cells (p + d) = Inr color"
    using Suc.prems(3) [of 1] Suc.prems(1) by simp
  show ?case
  proof (cases "count + 1 = 5")
    case True
    with first show ?thesis by (subst count_loop.simps) simp
  next
    case False
    have m: "m = nat (5 - (count + 1))" using Suc.hyps(2) by simp
    have lt: "count + 1 < 5" using False Suc.prems(1) by simp
    have rest: "\<And>j. 1 \<le> j \<Longrightarrow> j \<le> 5 - (count + 1) 
        \<Longrightarrow> np_get cells (p + d + j * d) = Inr color"
    proof -
      fix j :: int
      assume "1 \<le> j" and "j \<le> 5 - (count + 1)"
      then have "np_get cells (p + (j + 1) * d) = Inr color"
        by (intro Suc.prems(3)) auto
      then show "np_get cells (p + d + j * d) = Inr color"
        by (simp add: algebra_simps)
    qed
    have "count_loop cells color d (p + d) (count + 1) = Some (Inr 5)"
      using Suc.hyps(1) [OF m lt _ rest] Suc.prems(2) by simp
    with first False show ?thesis by (subst count_loop.simps) simp
  qed
qed

lemma wf_board_safe:
  assumes wf: "wf_board b" and p: "0 \<le> p" "p < int (length (board b))"
    and nb: "board b ! nat p \<noteq> BORDER"
  shows "NS b + 1 \<le> p \<and> p + NS b + 1 < int (length (board b))"
proof -
  let ?n = "size_b b"
  from p have "nat p \<in> set [0..<length (board b)]" by simp
  with wf nb have "on_board ?n (int (nat p))"
    unfolding wf_board_def by blast
  with p have ob: "on_board ?n p" by simp
  from wf have ns: "NS b = ?n + 1" and len: "int (length (board b)) = ?n * ?n + 3 * (?n + 1)"
    by (simp_all add: wf_board_def)
  from ob have "?n + 1 < p" and "p < (?n + 1) * (?n + 1)"
    by (simp_all add: on_board_def)
  moreover have "(?n + 1) * (?n + 1) + ?n + 2 = ?n * ?n + 3 * (?n + 1)"
    by (simp add: algebra_simps)
  ultimately show ?thesis using ns len by linarith
qed

lemma run_exists:
  assumes wf: "wf_board b" and d: "d \<noteq> 0" "\<bar>d\<bar> \<le> NS b + 1"
    and p: "0 \<le> p" "p < int (length (board b))"
    and c: "board b ! nat p = c" "c \<noteq> BORDER"
  shows "\<exists>k. run_of (board b) c p d k"
  using p c
proof (induction "nat (if 0 < d then int (length (board b)) - p else p)" arbitrary: p
    rule: less_induct)
  case less
  let ?cells = "board b"
  from less.prems have nb: "?cells ! nat p \<noteq> BORDER" by simp
  have safe: "NS b + 1 \<le> p \<and> p + NS b + 1 < int (length ?cells)"
    by (rule wf_board_safe [OF wf less.prems(1,2) nb])
  with d have next_in: "0 \<le> p + d" "p + d < int (length ?cells)" by linarith+
  show ?case
  proof (cases "?cells ! nat (p + d) = c")
    case False
    with next_in have "run_of ?cells c p d 0" by (auto simp: run_of_def)
    then show ?thesis ..
  next
    case True
    have smaller: "nat (if 0 < d then int (length ?cells) - (p + d) else p + d)
        < nat (if 0 < d then int (length ?cells) - p else p)"
      using d next_in less.prems by auto
    from less.hyps [OF smaller next_in True less.prems(4)]
    obtain k where k: "run_of ?cells c (p + d) d k" ..
    have "run_of ?cells c p d (Suc k)"
      unfolding run_of_def
    proof (intro conjI allI impI)
      fix j :: int
      assume j: "1 \<le> j \<and> j \<le> int (Suc k)"
      have "0 \<le> p + j * d \<and> p + j * d < int (length ?cells) \<and> ?cells ! nat (p + j * d) = c"
      proof (cases "j = 1")
        case True
        with next_in \<open>?cells ! nat (p + d) = c\<close> show ?thesis by simp
      next
        case False
        with j have "1 \<le> j - 1 \<and> j - 1 \<le> int k" by auto
        with k have "0 \<le> p + d + (j - 1) * d \<and> p + d + (j - 1) * d < int (length ?cells) \<and>
            ?cells ! nat (p + d + (j - 1) * d) = c"
          unfolding run_of_def by blast
        moreover have "p + d + (j - 1) * d = p + j * d" by (simp add: algebra_simps)
        ultimately show ?thesis by simp
      qed
      then show "0 \<le> p + j * d" "p + j * d < int (length ?cells)" "?cells ! nat (p + j * d) = c"
        by simp_all
    next
      have eq: "p + d + (int k + 1) * d = p + (int (Suc k) + 1) * d" by (simp add: algebra_simps)
      from k have "0 \<le> p + d + (int k + 1) * d \<and> p + d + (int k + 1) * d < int (length ?cells) \<and>
            ?cells ! nat (p + d + (int k + 1) * d) \<noteq> c"
        unfolding run_of_def by blast
      then show "0 \<le> p + (int (Suc k) + 1) * d" "p + (int (Suc k) + 1) * d < int (length ?cells)"
        "?cells ! nat (p + (int (Suc k) + 1) * d) \<noteq> c"
        unfolding eq by simp_all
    qed
    then show ?thesis ..
  qed
qed

lemma run_of_get:
  "run_of cells c p d k \<Longrightarrow> 1 \<le> j \<Longrightarrow> j \<le> int k \<Longrightarrow> np_get cells (p + j * d) = Inr c"
  by (simp add: run_of_def np_get_nonneg)

lemma run_of_end:
  "run_of cells c p d k \<Longrightarrow> \<exists>v. np_get cells (p + (int k + 1) * d) = Inr v \<and> v \<noteq> c"
  by (simp add: run_of_def np_get_nonneg)

lemma count_loop_of_run:
  assumes run: "run_of cells c p d k" and count: "0 < count"
  shows "count_loop cells c d p count =
           Some (Inr (if count < 5 \<and> 5 \<le> count + int k then 5 else count + int k))"
proof (cases "count < 5 \<and> 5 \<le> count + int k")
  case True
  then have "count_loop cells c d p count = Some (Inr 5)"
    using run count by (intro count_loop_cap) (auto intro: run_of_get)
  with True show ?thesis by simp
next
  case False
  from run_of_end [OF run] obtain v
    where v: "np_get cells (p + (int k + 1) * d) = Inr v" "v \<noteq> c" by blast
  have "count_loop cells c d p count = Some (Inr (count + int k))"
    using False by (intro count_loop_run [OF run_of_get [OF run] v]) auto
  with False show ?thesis by auto
qed

lemma point_direction_check_of_runs:
  assumes p: "0 \<le> p" "p < int (length (board b))" and c: "board b ! nat p = c"
    and kf: "run_of (board b) c p d kf" and kb: "run_of (board b) c p (- d) kb"
  shows "point_direction_check_connect_gomoko b p d =
           (if 4 \<le> kf \<and> 1 \<le> kb then Inl AssertionError else Inr (4 \<le> kf + kb))"
proof -
  have get: "np_get (board b) p = Inr c"
    using p c by (simp add: np_get_nonneg)
  let ?c1 = "if (1::int) < 5 \<and> 5 \<le> 1 + int kf then 5 else 1 + int kf"
  have l1: "count_loop (board b) c d p 1 = Some (Inr ?c1)"
    by (rule count_loop_of_run [OF kf]) simp
  have pos: "0 < ?c1" by simp
  have l2: "count_loop (board b) c (- d) p ?c1 =
      Some (Inr (if ?c1 < 5 \<and> 5 \<le> ?c1 + int kb then 5 else ?c1 + int kb))"
    by (rule count_loop_of_run [OF kb pos])
  show ?thesis
    unfolding point_direction_check_connect_gomoko_def get
    by (simp only: l1 l2 sum.case option.case) auto
qed

lemma five_from_iff:
  "five_from b c q s = (\<forall>j. 0 \<le> j \<and> j \<le> 4 \<longrightarrow> np_get (board b) (q + j * s) = Inr c)"
proof -
  have "set [0, 1, 2, 3, 4 :: int] = {j. 0 \<le> j \<and> j \<le> 4}" by auto
  then show ?thesis unfolding five_from_def by blast
qed

lemma five_of_runs:
  assumes p: "0 \<le> p" "p < int (length (board b))" and c: "board b ! nat p = c"
    and kf: "run_of (board b) c p d kf" and kb: "run_of (board b) c p (- d) kb"
    and m: "0 \<le> m" "m \<le> int kb" "4 - m \<le> int kf"
  shows "five_from b c (p - m * d) d"
  unfolding five_from_iff
proof (intro allI impI)
  fix j :: int
  assume j: "0 \<le> j \<and> j \<le> 4"
  consider "j = m" | "m < j" | "j < m" by linarith
  then show "np_get (board b) (p - m * d + j * d) = Inr c"
  proof cases
    case 1
    with p c show ?thesis by (simp add: np_get_nonneg)
  next
    case 2
    with j m have "np_get (board b) (p + (j - m) * d) = Inr c"
      by (intro run_of_get [OF kf]) auto
    then show ?thesis by (simp add: algebra_simps)
  next
    case 3
    with j m have "np_get (board b) (p + (m - j) * (- d)) = Inr c"
      by (intro run_of_get [OF kb]) auto
    then show ?thesis by (simp add: algebra_simps)
  qed
qed

lemma run_of_start:
  assumes kb: "run_of cells c p (- d) kb" and m: "0 \<le> m" "m \<le> int kb" and p: "0 \<le> p"
  shows "0 \<le> p - m * d"
proof (cases "m = 0")
  case True
  with p show ?thesis by simp
next
  case False
  with m kb have "0 \<le> p + m * (- d)" unfolding run_of_def by auto
  then show ?thesis by simp
qed

lemma runs_of_five:
  assumes kf: "run_of (board b) c p d kf" and kb: "run_of (board b) c p (- d) kb"
    and m: "0 \<le> m" "m \<le> 4" and five: "five_from b c (p - m * d) d"
  shows "4 - m \<le> int kf \<and> m \<le> int kb"
proof -
  have win: "\<And>j. 0 \<le> j \<Longrightarrow> j \<le> 4 \<Longrightarrow> np_get (board b) (p - m * d + j * d) = Inr c"
    using five unfolding five_from_iff by blast
  have "4 - m \<le> int kf"
  proof (rule ccontr)
    assume "\<not> 4 - m \<le> int kf"
    with m have "np_get (board b) (p - m * d + (m + int kf + 1) * d) = Inr c"
      by (intro win) auto
    then have "np_get (board b) (p + (int kf + 1) * d) = Inr c"
      by (simp add: algebra_simps)
    with run_of_end [OF kf] show False by auto
  qed
  moreover have "m \<le> int kb"
  proof (rule ccontr)
    assume "\<not> m \<le> int kb"
    with m have "np_get (board b) (p - m * d + (m - int kb - 1) * d) = Inr c"
      by (intro win) auto
    then have "np_get (board b) (p + (int kb + 1) * (- d)) = Inr c"
      by (simp add: algebra_simps)
    with run_of_end [OF kb] show False by auto
  qed
  ultimately show ?thesis ..
qed

lemma shifts_bound:
  assumes "wf_board b" and "s \<in> set (shifts b)"
  shows "0 < s \<and> s \<le> NS b + 1"
  using assms by (auto simp: wf_board_def shifts_def)

lemma point_direction_check_cases:
  assumes wf: "wf_board b" and s: "s \<in> set (shifts b)"
    and p: "0 \<le> p" "p < int (length (board b))" and c: "board b ! nat p = c" "c \<noteq> BORDER"
  obtains kf kb where "run_of (board b) c p s kf" and "run_of (board b) c p (- s) kb"
    and "point_direction_check_connect_gomoko b p s =
           (if 4 \<le> kf \<and> 1 \<le> kb then Inl AssertionError else Inr (4 \<le> kf + kb))"
proof -
  from shifts_bound [OF wf s] have d: "s \<noteq> 0" "\<bar>s\<bar> \<le> NS b + 1" "- s \<noteq> 0" "\<bar>- s\<bar> \<le> NS b + 1"
    by auto
  from run_exists [OF wf d(1,2) p c] obtain kf where kf: "run_of (board b) c p s kf" ..
  from run_exists [OF wf d(3,4) p c] obtain kb where kb: "run_of (board b) c p (- s) kb" ..
  from point_direction_check_of_runs [OF p c(1) kf kb] kf kb that show thesis by blast
qed

lemma point_direction_check_first:
  assumes wf: "wf_board b" and s: "s \<in> set (shifts b)"
    and p: "0 \<le> p" "p < int (length (board b))" and c: "board b ! nat p = c" "c \<noteq> BORDER"
    and none: "\<And>q. 0 \<le> q \<Longrightarrow> q < p \<Longrightarrow> \<not> five_from b c q s"
  shows "point_direction_check_connect_gomoko b p s = Inr (five_from b c p s)"
proof -
  from point_direction_check_cases [OF wf s p c] obtain kf kb
    where kf: "run_of (board b) c p s kf" and kb: "run_of (board b) c p (- s) kb"
      and res: "point_direction_check_connect_gomoko b p s =
           (if 4 \<le> kf \<and> 1 \<le> kb then Inl AssertionError else Inr (4 \<le> kf + kb))"
    by blast
  have spos: "0 < s" using shifts_bound [OF wf s] by simp
  have below: "\<not> (1 \<le> m \<and> m \<le> int kb \<and> 4 - m \<le> int kf)" for m
  proof
    assume m: "1 \<le> m \<and> m \<le> int kb \<and> 4 - m \<le> int kf"
    then have "five_from b c (p - m * s) s"
      by (intro five_of_runs [OF p c(1) kf kb]) auto
    moreover have "0 \<le> p - m * s"
      using m by (intro run_of_start [OF kb _ _ p(1)]) auto
    moreover have "p - m * s < p" using m spos by simp
    ultimately show False using none by blast
  qed
  show ?thesis
  proof (cases "4 \<le> kf")
    case True
    with below [of 1] have "kb = 0" by auto
    moreover have "five_from b c (p - 0 * s) s"
      using True by (intro five_of_runs [OF p c(1) kf kb]) auto
    ultimately show ?thesis using res True by simp
  next
    case False
    have "\<not> five_from b c p s"
    proof
      assume "five_from b c p s"
      then have "five_from b c (p - 0 * s) s" by simp
      from runs_of_five [OF kf kb _ _ this] False show False by simp
    qed
    moreover have "\<not> 4 \<le> kf + kb"
      using below [of "4 - int kf"] False by auto
    ultimately show ?thesis using res False by simp
  qed
qed

lemma any_direction_all_False:
  "(\<And>s. s \<in> set ss \<Longrightarrow> point_direction_check_connect_gomoko b p s = Inr False)
    \<Longrightarrow> any_direction b p ss = Inr False"
  by (induction ss) simp_all

lemma any_direction_some_True:
  assumes "\<And>s. s \<in> set ss \<Longrightarrow> \<exists>r. point_direction_check_connect_gomoko b p s = Inr r"
    and "\<exists>s \<in> set ss. point_direction_check_connect_gomoko b p s = Inr True"
  shows "any_direction b p ss = Inr True"
  using assms
proof (induction ss)
  case Nil
  then show ?case by simp
next
  case (Cons s ss)
  from Cons.prems(1) [of s] obtain r where r: "point_direction_check_connect_gomoko b p s = Inr r"
    by auto
  show ?case
  proof (cases r)
    case True
    with r show ?thesis by simp
  next
    case False
    with r Cons.prems(2) have "\<exists>s \<in> set ss. point_direction_check_connect_gomoko b p s = Inr True"
      by auto
    with Cons.IH Cons.prems(1) have "any_direction b p ss = Inr True" by simp
    with r False show ?thesis by simp
  qed
qed

text \<open>
  A stone below which no line of five starts: the point test says whether one
  starts at the stone itself.
\<close>

lemma point_check_first:
  assumes wf: "wf_board b"
    and p: "0 \<le> p" "p < int (length (board b))" and c: "board b ! nat p = c" "c \<noteq> BORDER"
    and none: "\<And>q s. 0 \<le> q \<Longrightarrow> q < p \<Longrightarrow> s \<in> set (shifts b) \<Longrightarrow> \<not> five_from b c q s"
  shows "point_check_game_end_gomoku b p = Inr (\<exists>s \<in> set (shifts b). five_from b c p s)"
proof -
  have each: "point_direction_check_connect_gomoko b p s = Inr (five_from b c p s)"
    if "s \<in> set (shifts b)" for s
    using that none by (intro point_direction_check_first [OF wf _ p c]) auto
  show ?thesis
  proof (cases "\<exists>s \<in> set (shifts b). five_from b c p s")
    case True
    then have "any_direction b p (shifts b) = Inr True"
      using each by (intro any_direction_some_True) auto
    with True show ?thesis by (simp add: point_check_game_end_gomoku_def)
  next
    case False
    then have "any_direction b p (shifts b) = Inr False"
      using each by (intro any_direction_all_False) auto
    with False show ?thesis by (simp add: point_check_game_end_gomoku_def)
  qed
qed

lemma where1d_set: "set (where1d P xs) = {int i |i. i < length xs \<and> P (xs ! i)}"
  by (auto simp: where1d_def)

lemma where1d_mem: "p \<in> set (where1d P xs) \<longleftrightarrow> 0 \<le> p \<and> p < int (length xs) \<and> P (xs ! nat p)"
proof
  assume "p \<in> set (where1d P xs)"
  then show "0 \<le> p \<and> p < int (length xs) \<and> P (xs ! nat p)"
    by (auto simp: where1d_set)
next
  assume "0 \<le> p \<and> p < int (length xs) \<and> P (xs ! nat p)"
  then have "nat p < length xs \<and> P (xs ! nat p) \<and> p = int (nat p)" by auto
  then show "p \<in> set (where1d P xs)" unfolding where1d_set by blast
qed

lemma where1d_sorted: "sorted_wrt (<) (where1d P xs)"
proof -
  have "sorted_wrt (<) (filter (\<lambda>i. P (xs ! i)) [0..<length xs])"
    by (intro sorted_wrt_filter) simp
  then show ?thesis
    by (simp add: where1d_def sorted_wrt_map)
qed

lemma five_from_start: "five_from b c q s \<Longrightarrow> np_get (board b) q = Inr c"
  unfolding five_from_iff by (drule spec [of _ 0]) simp

lemma np_get_stone:
  assumes "np_get cells q = Inr c" and "0 \<le> q"
  shows "q < int (length cells) \<and> cells ! nat q = c"
  using assms by (auto simp: np_get_def np_index_def Let_def split: if_splits option.splits)

lemma any_point_suffix:
  assumes wf: "wf_board b" and c: "c \<noteq> BORDER"
    and split: "where1d (\<lambda>x. x = c) (board b) = pre @ ps"
    and pre: "\<And>q s. q \<in> set pre \<Longrightarrow> s \<in> set (shifts b) \<Longrightarrow> \<not> five_from b c q s"
  shows "any_point b ps = Inr (\<exists>q \<in> set ps. \<exists>s \<in> set (shifts b). five_from b c q s)"
  using split pre
proof (induction ps arbitrary: pre)
  case Nil
  then show ?case by simp
next
  case (Cons x xs)
  let ?all = "where1d (\<lambda>x. x = c) (board b)"
  have x_in: "x \<in> set ?all" using Cons.prems(1) by simp
  then have x: "0 \<le> x" "x < int (length (board b))" "board b ! nat x = c"
    by (simp_all add: where1d_mem)
  have sorted: "sorted_wrt (<) (pre @ x # xs)"
    using where1d_sorted [of "\<lambda>x. x = c" "board b"] Cons.prems(1) by simp
  have none: "\<not> five_from b c q s" if q: "0 \<le> q" "q < x" and s: "s \<in> set (shifts b)" for q s
  proof
    assume five: "five_from b c q s"
    from np_get_stone [OF five_from_start [OF five] q(1)]
    have "q \<in> set ?all" using q(1) by (simp add: where1d_mem)
    then have "q \<in> set pre \<or> q = x \<or> q \<in> set xs"
      using Cons.prems(1) by auto
    moreover have "q \<noteq> x" using q(2) by simp
    moreover have "q \<notin> set xs"
      using sorted q(2) by (auto simp: sorted_wrt_append)
    ultimately have "q \<in> set pre" by blast
    with Cons.prems(2) s five show False by blast
  qed
  have check: "point_check_game_end_gomoku b x = Inr (\<exists>s \<in> set (shifts b). five_from b c x s)"
    by (rule point_check_first [OF wf x c none])
  show ?case
  proof (cases "\<exists>s \<in> set (shifts b). five_from b c x s")
    case True
    with check show ?thesis by auto
  next
    case False
    have split': "?all = (pre @ [x]) @ xs" using Cons.prems(1) by simp
    have pre': "\<And>q s. q \<in> set (pre @ [x]) \<Longrightarrow> s \<in> set (shifts b) \<Longrightarrow> \<not> five_from b c q s"
      using Cons.prems(2) False by auto
    have "any_point b xs = Inr (\<exists>q \<in> set xs. \<exists>s \<in> set (shifts b). five_from b c q s)"
      by (rule Cons.IH [OF split' pre'])
    with check False show ?thesis by simp
  qed
qed

lemma any_point_has_five:
  assumes "wf_board b" and "c \<noteq> BORDER"
  shows "any_point b (where1d (\<lambda>x. x = c) (board b)) = Inr (has_five b c)"
  unfolding has_five_def
  using assms by (intro any_point_suffix [where pre = "[]"]) auto

text \<open>
  C2, as stated, at a line of six: on the 6x6 board with White stones on the six
  points 8..13 of the first row and nothing else, every stone lies on a run of six
  (between the \<open>BORDER\<close> cells 7 and 14), and \<open>check_game_end_gomoku\<close> reports the end
  of the game for White.
\<close>

theorem check_game_end_gomoku_six_counterexample:
  "map (\<lambda>p. board (with_stones WHITE [8, 9, 10, 11, 12, 13] (reset 6)) ! p) [7, 8, 9, 10, 11, 12, 13, 14]
     = [BORDER, WHITE, WHITE, WHITE, WHITE, WHITE, WHITE, BORDER] \<and>
   where1d (\<lambda>c. c = WHITE \<or> c = BLACK) (board (with_stones WHITE [8, 9, 10, 11, 12, 13] (reset 6)))
     = [8, 9, 10, 11, 12, 13] \<and>
   check_game_end_gomoku (with_stones WHITE [8, 9, 10, 11, 12, 13] (reset 6))
     = Inr (True, Some WHITE)"
  by code_simp

text \<open>
  C2, amended: on every board with its border in place, \<open>check_game_end_gomoku\<close>
  reports the end of the game exactly when some stone lies on a line (horizontal,
  vertical or diagonal) of five or more contiguous stones of its color, a line of six
  or more included; the winner reported is White when White has such a line and is
  Black otherwise. When every run has length 4 or less it reports no end. It raises
  nothing.
\<close>

theorem check_game_end_gomoku_five_or_more:
  assumes "wf_board b"
  shows "check_game_end_gomoku b =
           Inr (if has_five b WHITE then (True, Some WHITE)
                else if has_five b BLACK then (True, Some BLACK)
                else (False, None))"
proof -
  have w: "any_point b (where1d (\<lambda>x. x = WHITE) (board b)) = Inr (has_five b WHITE)"
    using assms by (intro any_point_has_five) auto
  have k: "any_point b (where1d (\<lambda>x. x = BLACK) (board b)) = Inr (has_five b BLACK)"
    using assms by (intro any_point_has_five) auto
  show ?thesis
    by (simp add: check_game_end_gomoku_def w k)
qed

theorem check_game_end_gomoku_five_or_more_witness:
  "check_game_end_gomoku (with_stones BLACK [8, 9, 10, 11, 12] (reset 6)) = Inr (True, Some BLACK) \<and>
   check_game_end_gomoku (with_stones BLACK [8, 9, 10, 11] (reset 6)) = Inr (False, None)"
proof -
  have wf5: "wf_board (with_stones BLACK [8, 9, 10, 11, 12] (reset 6))" by code_simp
  have wf4: "wf_board (with_stones BLACK [8, 9, 10, 11] (reset 6))" by code_simp
  have w5: "\<not> has_five (with_stones BLACK [8, 9, 10, 11, 12] (reset 6)) WHITE" by code_simp
  have b5: "has_five (with_stones BLACK [8, 9, 10, 11, 12] (reset 6)) BLACK" by code_simp
  have w4: "\<not> has_five (with_stones BLACK [8, 9, 10, 11] (reset 6)) WHITE" by code_simp
  have b4: "\<not> has_five (with_stones BLACK [8, 9, 10, 11] (reset 6)) BLACK" by code_simp
  from check_game_end_gomoku_five_or_more [OF wf5] check_game_end_gomoku_five_or_more [OF wf4]
    w5 b5 w4 b4
  show ?thesis by simp
qed

section \<open>The recursive scan computes the tiers\<close>

lemma check_pattern_walk:
  "length hv \<le> 9 \<Longrightarrow>
     check_pattern b point hv dx dy ms pl color
       = Some (walk_sets (9 - length hv) b point hv dx dy ms pl color)"
proof (induction "9 - length hv" arbitrary: point hv ms)
  case 0
  then have "length hv = 9" by simp
  then show ?case by (subst check_pattern.simps) (simp add: Let_def)
next
  case (Suc k)
  then have len: "length hv \<noteq> 9" and k: "9 - length hv = Suc k" by auto
  let ?ms' = "match_patterns pl ms hv (\<lambda>dis. point - dx * (dis + 1) - dy * NS b * (dis + 1))"
  let ?have' = "hv @ [piece_char color (board b ! nat point)]"
  have k': "k = 9 - length ?have'" using k by simp
  have le': "length ?have' \<le> 9" using k by simp
  have IH: "check_pattern b (point + dx + dy * NS b) ?have' dx dy ?ms' pl color
      = Some (walk_sets k b (point + dx + dy * NS b) ?have' dx dy ?ms' pl color)"
    using Suc.hyps(1) [OF k' le'] k' by simp
  show ?case
    by (subst check_pattern.simps) (simp add: Let_def len k IH)
qed

lemma disjoint_tables_Cons:
  assumes "disjoint_tables (t # pl)"
  shows "disjoint_tables pl" and "\<And>j. j < length pl \<Longrightarrow> fst ` set t \<inter> fst ` set (pl ! j) = {}"
proof -
  show "disjoint_tables pl"
    unfolding disjoint_tables_def
  proof (intro allI impI)
    fix i j assume "i < length pl" "j < length pl" "i \<noteq> j"
    then have "Suc i < length (t # pl)" "Suc j < length (t # pl)" "Suc i \<noteq> Suc j" by auto
    with assms have "fst ` set ((t # pl) ! Suc i) \<inter> fst ` set ((t # pl) ! Suc j) = {}"
      unfolding disjoint_tables_def by blast
    then show "fst ` set (pl ! i) \<inter> fst ` set (pl ! j) = {}" by simp
  qed
next
  fix j assume "j < length pl"
  then have "0 < length (t # pl)" "Suc j < length (t # pl)" "0 \<noteq> Suc j" by auto
  with assms have "fst ` set ((t # pl) ! 0) \<inter> fst ` set ((t # pl) ! Suc j) = {}"
    unfolding disjoint_tables_def by blast
  then show "fst ` set t \<inter> fst ` set (pl ! j) = {}" by simp
qed

lemma hits_empty: "s \<notin> fst ` set table \<Longrightarrow> hits table s move = {}"
proof -
  assume "s \<notin> fst ` set table"
  then have "map_of table s = None" by (simp add: map_of_eq_None_iff)
  then show ?thesis by (simp add: hits_def)
qed

lemma match_patterns_length: "length (match_patterns pl ms s move) = length ms"
  by (induction pl ms s move rule: match_patterns.induct) (auto split: option.splits)

lemma match_patterns_nth:
  assumes "length pl = length ms" and "disjoint_tables pl" and "i < length ms"
  shows "match_patterns pl ms s move ! i = ms ! i \<union> hits (pl ! i) s move"
  using assms
proof (induction pl ms s move arbitrary: i rule: match_patterns.induct)
  case (1 table tables m ms s move)
  from disjoint_tables_Cons [OF "1.prems"(2)]
  have dj: "disjoint_tables tables"
    and d0: "\<And>j. j < length tables \<Longrightarrow> fst ` set table \<inter> fst ` set (tables ! j) = {}" by blast+
  show ?case
  proof (cases "map_of table s")
    case None
    then have h0: "hits table s move = {}" by (simp add: hits_def)
    show ?thesis
    proof (cases i)
      case 0
      with None h0 show ?thesis by simp
    next
      case (Suc i')
      with "1.prems" have "length tables = length ms" "i' < length ms" by auto
      from "1.IH" [OF None this(1) dj this(2)] None Suc show ?thesis by simp
    qed
  next
    case (Some ds)
    then have in0: "s \<in> fst ` set table" by (metis map_of_eq_None_iff option.distinct(1))
    show ?thesis
    proof (cases i)
      case 0
      with Some show ?thesis by (simp add: hits_def)
    next
      case (Suc i')
      with "1.prems" have "i' < length tables" by auto
      from d0 [OF this] in0 have "s \<notin> fst ` set (tables ! i')" by blast
      then have "hits (tables ! i') s move = {}" by (rule hits_empty)
      with Some Suc show ?thesis by simp
    qed
  qed
qed simp_all

lemma walk_sets_length: "length (walk_sets k b point hv dx dy ms pl color) = length ms"
  by (induction k arbitrary: point hv ms) (simp_all add: Let_def match_patterns_length)

lemma in_range_run_Suc:
  "in_range_run b q step (Suc j) \<longleftrightarrow>
     0 \<le> q \<and> q < int (length (board b)) \<and> in_range_run b (q + step) step j"
proof
  assume r: "in_range_run b q step (Suc j)"
  then have "0 \<le> q + int 0 * step \<and> q + int 0 * step < int (length (board b))"
    unfolding in_range_run_def by blast
  moreover have "in_range_run b (q + step) step j"
    unfolding in_range_run_def
  proof (intro allI impI)
    fix j' assume "j' < j"
    then have "Suc j' < Suc j" by simp
    with r have "0 \<le> q + int (Suc j') * step \<and> q + int (Suc j') * step < int (length (board b))"
      unfolding in_range_run_def by blast
    then show "0 \<le> q + step + int j' * step \<and> q + step + int j' * step < int (length (board b))"
      by (simp add: algebra_simps)
  qed
  ultimately show "0 \<le> q \<and> q < int (length (board b)) \<and> in_range_run b (q + step) step j"
    by simp
next
  assume a: "0 \<le> q \<and> q < int (length (board b)) \<and> in_range_run b (q + step) step j"
  show "in_range_run b q step (Suc j)"
    unfolding in_range_run_def
  proof (intro allI impI)
    fix j' assume j': "j' < Suc j"
    show "0 \<le> q + int j' * step \<and> q + int j' * step < int (length (board b))"
    proof (cases j')
      case 0
      with a show ?thesis by simp
    next
      case (Suc m)
      with j' have "m < j" by simp
      with a have "0 \<le> q + step + int m * step \<and> q + step + int m * step < int (length (board b))"
        unfolding in_range_run_def by blast
      with Suc show ?thesis by (simp add: algebra_simps)
    qed
  qed
qed

lemma signature_Suc:
  "signature b color q step (Suc j)
     = piece_char color (board b ! nat q) # signature b color (q + step) step j"
proof -
  have "[0..<Suc j] = 0 # map Suc [0..<j]"
    by (simp add: upt_conv_Cons map_Suc_upt del: upt_Suc)
  then show ?thesis
    by (simp add: signature_def comp_def algebra_simps del: upt_Suc)
qed

lemma walk_sets_nth:
  assumes "length pl = length ms" and "disjoint_tables pl" and "i < length ms"
  shows "x \<in> walk_sets k b point hv dx dy ms pl color ! i \<longleftrightarrow>
           x \<in> ms ! i \<or>
           (\<exists>j \<le> k. in_range_run b point (dx + dy * NS b) j \<and>
              x \<in> hits (pl ! i) (hv @ signature b color point (dx + dy * NS b) j)
                    (\<lambda>dis. point + (int j - dis - 1) * (dx + dy * NS b)))"
  using assms
proof (induction k arbitrary: point hv ms)
  case 0
  have mv: "(\<lambda>dis. point - dx * (dis + 1) - dy * NS b * (dis + 1))
      = (\<lambda>dis. point + (int 0 - dis - 1) * (dx + dy * NS b))"
    by (rule ext) (simp add: algebra_simps)
  show ?case
    using match_patterns_nth [OF 0] 
    by (simp add: mv in_range_run_def signature_def)
next
  case (Suc k)
  let ?step = "dx + dy * NS b"
  let ?mv0 = "\<lambda>dis. point - dx * (dis + 1) - dy * NS b * (dis + 1)"
  let ?ms' = "match_patterns pl ms hv ?mv0"
  have mv: "?mv0 = (\<lambda>dis. point + (int 0 - dis - 1) * ?step)"
    by (rule ext) (simp add: algebra_simps)
  have ms': "?ms' ! i = ms ! i \<union> hits (pl ! i) hv (\<lambda>dis. point + (int 0 - dis - 1) * ?step)"
    using match_patterns_nth [OF Suc.prems] mv by simp
  have len': "length pl = length ?ms'" "i < length ?ms'"
    using Suc.prems by (simp_all add: match_patterns_length)
  show ?case
  proof (cases "0 \<le> point \<and> point < int (length (board b))")
    case False
    then have none: "\<not> in_range_run b point ?step (Suc j)" for j
      by (auto simp: in_range_run_Suc)
    have "(\<exists>j \<le> Suc k. in_range_run b point ?step j \<and>
              x \<in> hits (pl ! i) (hv @ signature b color point ?step j)
                    (\<lambda>dis. point + (int j - dis - 1) * ?step))
          \<longleftrightarrow> x \<in> hits (pl ! i) hv (\<lambda>dis. point + (int 0 - dis - 1) * ?step)"
    proof
      assume "\<exists>j \<le> Suc k. in_range_run b point ?step j \<and>
              x \<in> hits (pl ! i) (hv @ signature b color point ?step j)
                    (\<lambda>dis. point + (int j - dis - 1) * ?step)"
      then obtain j where j: "in_range_run b point ?step j"
        "x \<in> hits (pl ! i) (hv @ signature b color point ?step j)
                    (\<lambda>dis. point + (int j - dis - 1) * ?step)" by blast
      from j(1) none have "j = 0" by (cases j) auto
      with j(2) show "x \<in> hits (pl ! i) hv (\<lambda>dis. point + (int 0 - dis - 1) * ?step)"
        by (simp add: signature_def)
    next
      assume "x \<in> hits (pl ! i) hv (\<lambda>dis. point + (int 0 - dis - 1) * ?step)"
      then have "in_range_run b point ?step 0 \<and>
              x \<in> hits (pl ! i) (hv @ signature b color point ?step 0)
                    (\<lambda>dis. point + (int 0 - dis - 1) * ?step)"
        by (simp add: in_range_run_def signature_def)
      then show "\<exists>j \<le> Suc k. in_range_run b point ?step j \<and>
              x \<in> hits (pl ! i) (hv @ signature b color point ?step j)
                    (\<lambda>dis. point + (int j - dis - 1) * ?step)" by blast
    qed
    moreover have "walk_sets (Suc k) b point hv dx dy ms pl color = ?ms'"
      using False by (simp add: Let_def)
    ultimately show ?thesis using ms' by simp
  next
    case True
    let ?ch = "piece_char color (board b ! nat point)"
    have w: "walk_sets (Suc k) b point hv dx dy ms pl color
        = walk_sets k b (point + ?step) (hv @ [?ch]) dx dy ?ms' pl color"
      using True by (simp add: Let_def algebra_simps)
    have IH: "x \<in> walk_sets k b (point + ?step) (hv @ [?ch]) dx dy ?ms' pl color ! i \<longleftrightarrow>
           x \<in> ?ms' ! i \<or>
           (\<exists>j \<le> k. in_range_run b (point + ?step) ?step j \<and>
              x \<in> hits (pl ! i) ((hv @ [?ch]) @ signature b color (point + ?step) ?step j)
                    (\<lambda>dis. point + ?step + (int j - dis - 1) * ?step))"
      by (rule Suc.IH [OF len'(1) Suc.prems(2) len'(2)])
    have shift: "(\<exists>j \<le> k. in_range_run b (point + ?step) ?step j \<and>
              x \<in> hits (pl ! i) ((hv @ [?ch]) @ signature b color (point + ?step) ?step j)
                    (\<lambda>dis. point + ?step + (int j - dis - 1) * ?step))
        \<longleftrightarrow> (\<exists>j \<le> Suc k. j \<noteq> 0 \<and> in_range_run b point ?step j \<and>
              x \<in> hits (pl ! i) (hv @ signature b color point ?step j)
                    (\<lambda>dis. point + (int j - dis - 1) * ?step))" (is "?L \<longleftrightarrow> ?R")
    proof
      assume ?L
      then obtain j where j: "j \<le> k" "in_range_run b (point + ?step) ?step j"
        "x \<in> hits (pl ! i) ((hv @ [?ch]) @ signature b color (point + ?step) ?step j)
                    (\<lambda>dis. point + ?step + (int j - dis - 1) * ?step)" by blast
      have f: "(\<lambda>dis. point + ?step + (int j - dis - 1) * ?step)
          = (\<lambda>dis. point + (int (Suc j) - dis - 1) * ?step)"
        by (rule ext) (simp add: algebra_simps)
      from j True have "Suc j \<le> Suc k \<and> Suc j \<noteq> 0 \<and> in_range_run b point ?step (Suc j) \<and>
          x \<in> hits (pl ! i) (hv @ signature b color point ?step (Suc j))
                    (\<lambda>dis. point + (int (Suc j) - dis - 1) * ?step)"
        unfolding f [symmetric] by (simp add: in_range_run_Suc signature_Suc)
      then show ?R by blast
    next
      assume ?R
      then obtain j where j: "j \<le> Suc k" "j \<noteq> 0" "in_range_run b point ?step j"
        "x \<in> hits (pl ! i) (hv @ signature b color point ?step j)
                    (\<lambda>dis. point + (int j - dis - 1) * ?step)" by blast
      then obtain m where m: "j = Suc m" by (cases j) auto
      have f: "(\<lambda>dis. point + ?step + (int m - dis - 1) * ?step)
          = (\<lambda>dis. point + (int (Suc m) - dis - 1) * ?step)"
        by (rule ext) (simp add: algebra_simps)
      from j m have "m \<le> k \<and> in_range_run b (point + ?step) ?step m \<and>
          x \<in> hits (pl ! i) ((hv @ [?ch]) @ signature b color (point + ?step) ?step m)
                    (\<lambda>dis. point + ?step + (int m - dis - 1) * ?step)"
        unfolding f by (simp add: in_range_run_Suc signature_Suc)
      then show ?L by blast
    qed
    have zero: "x \<in> hits (pl ! i) hv (\<lambda>dis. point + (int 0 - dis - 1) * ?step) \<longleftrightarrow>
        (\<exists>j \<le> Suc k. j = 0 \<and> in_range_run b point ?step j \<and>
              x \<in> hits (pl ! i) (hv @ signature b color point ?step j)
                    (\<lambda>dis. point + (int j - dis - 1) * ?step))"
      by (simp add: in_range_run_def signature_def)
    show ?thesis
      unfolding w IH ms' shift Un_iff zero by blast
  qed
qed

lemma good_solve_patterns: "good_tables solve_patterns"
proof -
  have "disjoint_tables solve_patterns"
    unfolding disjoint_tables_def solve_patterns_def
    by (simp add: less_Suc_eq all_conj_distrib numeral_eq_Suc)
  then show ?thesis
    unfolding good_tables_def by (simp add: solve_patterns_def)
qed

lemma check_starts_nth:
  assumes "length pl = length ms" and "disjoint_tables pl"
  shows "\<exists>final. check_starts b starts ms pl color = Some final \<and> length final = length ms \<and>
           (\<forall>i < length ms. \<forall>x. x \<in> final ! i \<longleftrightarrow>
              x \<in> ms ! i \<or>
              (\<exists>(q, dx, dy) \<in> set starts. \<exists>j \<le> 9.
                  in_range_run b q (dx + dy * NS b) j \<and>
                  x \<in> hits (pl ! i) (signature b color q (dx + dy * NS b) j)
                        (\<lambda>dis. q + (int j - dis - 1) * (dx + dy * NS b))))"
  using assms
proof (induction starts arbitrary: ms)
  case Nil
  then show ?case by simp
next
  case (Cons start starts)
  obtain q dx dy where start: "start = (q, dx, dy)" by (cases start) auto
  let ?ms' = "walk_sets 9 b q [] dx dy ms pl color"
  have cp: "check_pattern b q [] dx dy ms pl color = Some ?ms'"
    using check_pattern_walk [of "[]" b q dx dy ms pl color] by simp
  have len': "length pl = length ?ms'"
    using Cons.prems by (simp add: walk_sets_length)
  from Cons.IH [OF len' Cons.prems(2)] obtain final
    where final: "check_starts b starts ?ms' pl color = Some final"
      "length final = length ?ms'"
      "\<forall>i < length ?ms'. \<forall>x. x \<in> final ! i \<longleftrightarrow>
              x \<in> ?ms' ! i \<or>
              (\<exists>(q, dx, dy) \<in> set starts. \<exists>j \<le> 9.
                  in_range_run b q (dx + dy * NS b) j \<and>
                  x \<in> hits (pl ! i) (signature b color q (dx + dy * NS b) j)
                        (\<lambda>dis. q + (int j - dis - 1) * (dx + dy * NS b)))"
    by blast
  have "check_starts b (start # starts) ms pl color = Some final"
    using cp final(1) start by simp
  moreover have "length final = length ms"
    using final(2) by (simp add: walk_sets_length)
  moreover have "\<forall>i < length ms. \<forall>x. x \<in> final ! i \<longleftrightarrow>
              x \<in> ms ! i \<or>
              (\<exists>(q, dx, dy) \<in> set (start # starts). \<exists>j \<le> 9.
                  in_range_run b q (dx + dy * NS b) j \<and>
                  x \<in> hits (pl ! i) (signature b color q (dx + dy * NS b) j)
                        (\<lambda>dis. q + (int j - dis - 1) * (dx + dy * NS b)))"
  proof (intro allI impI)
    fix i x assume i: "i < length ms"
    then have i': "i < length ?ms'" by (simp add: walk_sets_length)
    have one: "x \<in> ?ms' ! i \<longleftrightarrow> x \<in> ms ! i \<or>
           (\<exists>j \<le> 9. in_range_run b q (dx + dy * NS b) j \<and>
              x \<in> hits (pl ! i) (signature b color q (dx + dy * NS b) j)
                    (\<lambda>dis. q + (int j - dis - 1) * (dx + dy * NS b)))"
      using walk_sets_nth [OF Cons.prems(1,2) i, of x 9 b q "[]" dx dy color] by simp
    from final(3) i' have rest: "x \<in> final ! i \<longleftrightarrow>
              x \<in> ?ms' ! i \<or>
              (\<exists>(q, dx, dy) \<in> set starts. \<exists>j \<le> 9.
                  in_range_run b q (dx + dy * NS b) j \<and>
                  x \<in> hits (pl ! i) (signature b color q (dx + dy * NS b) j)
                        (\<lambda>dis. q + (int j - dis - 1) * (dx + dy * NS b)))"
      by blast
    show "x \<in> final ! i \<longleftrightarrow>
              x \<in> ms ! i \<or>
              (\<exists>(q, dx, dy) \<in> set (start # starts). \<exists>j \<le> 9.
                  in_range_run b q (dx + dy * NS b) j \<and>
                  x \<in> hits (pl ! i) (signature b color q (dx + dy * NS b) j)
                        (\<lambda>dis. q + (int j - dis - 1) * (dx + dy * NS b)))"
      unfolding rest one start by auto
  qed
  ultimately show ?case by blast
qed

lemma signature_eq_iff:
  "signature b color q step (length pat) = pat \<longleftrightarrow>
      (\<forall>j < length pat. piece_char color (board b ! nat (q + int j * step)) = pat ! j)"
proof
  assume eq: "signature b color q step (length pat) = pat"
  show "\<forall>j < length pat. piece_char color (board b ! nat (q + int j * step)) = pat ! j"
  proof (intro allI impI)
    fix j assume j: "j < length pat"
    then have "signature b color q step (length pat) ! j
        = piece_char color (board b ! nat (q + int j * step))"
      by (simp add: signature_def)
    with eq show "piece_char color (board b ! nat (q + int j * step)) = pat ! j" by simp
  qed
next
  assume all: "\<forall>j < length pat. piece_char color (board b ! nat (q + int j * step)) = pat ! j"
  show "signature b color q step (length pat) = pat"
  proof (rule nth_equalityI)
    show "length (signature b color q step (length pat)) = length pat"
      by (simp add: signature_def)
  next
    fix j assume "j < length (signature b color q step (length pat))"
    then have j: "j < length pat" by (simp add: signature_def)
    then have "signature b color q step (length pat) ! j
        = piece_char color (board b ! nat (q + int j * step))"
      by (simp add: signature_def)
    with all j show "signature b color q step (length pat) ! j = pat ! j" by simp
  qed
qed

lemma fits_iff:
  "fits b color q step pat \<longleftrightarrow>
     in_range_run b q step (length pat) \<and> signature b color q step (length pat) = pat"
  unfolding signature_eq_iff fits_def in_range_run_def by auto

lemma hits_table_iff:
  assumes "distinct (map fst table)" and "\<forall>(pat, ds) \<in> set table. length pat \<le> 9"
  shows "(\<exists>j \<le> 9. in_range_run b q step j \<and>
            x \<in> hits table (signature b color q step j) (\<lambda>dis. q + (int j - dis - 1) * step))
         \<longleftrightarrow> (\<exists>(pat, ds) \<in> set table. fits b color q step pat \<and>
                (\<exists>dis \<in> set ds. x = q + (int (length pat) - 1 - dis) * step))"
    (is "?L \<longleftrightarrow> ?R")
proof
  assume ?L
  then obtain j where j: "j \<le> 9" "in_range_run b q step j"
    "x \<in> hits table (signature b color q step j) (\<lambda>dis. q + (int j - dis - 1) * step)" by blast
  from j(3) obtain ds where ds: "map_of table (signature b color q step j) = Some ds"
    "x \<in> (\<lambda>dis. q + (int j - dis - 1) * step) ` set ds"
    by (auto simp: hits_def split: option.splits)
  from ds(1) have mem: "(signature b color q step j, ds) \<in> set table" by (rule map_of_SomeD)
  have lenj: "length (signature b color q step j) = j" by (simp add: signature_def)
  have "fits b color q step (signature b color q step j)"
    unfolding fits_iff lenj using j(2) by simp
  moreover from ds(2) have "\<exists>dis \<in> set ds.
      x = q + (int (length (signature b color q step j)) - 1 - dis) * step"
    unfolding lenj by (auto simp: algebra_simps)
  ultimately show ?R using mem by blast
next
  assume ?R
  then obtain pat ds dis where p: "(pat, ds) \<in> set table" "fits b color q step pat"
    "dis \<in> set ds" "x = q + (int (length pat) - 1 - dis) * step" by blast
  from p(1) assms(1) have m: "map_of table pat = Some ds" by (rule map_of_is_SomeI [rotated])
  from p(1) assms(2) have le: "length pat \<le> 9" by auto
  from p(2) have f: "in_range_run b q step (length pat)"
    "signature b color q step (length pat) = pat" by (simp_all add: fits_iff)
  have "x = (\<lambda>dis. q + (int (length pat) - dis - 1) * step) dis"
    using p(4) by (simp add: algebra_simps)
  with p(3) have "x \<in> (\<lambda>dis. q + (int (length pat) - dis - 1) * step) ` set ds"
    by (rule rev_image_eqI)
  then have "x \<in> hits table (signature b color q step (length pat))
      (\<lambda>dis. q + (int (length pat) - dis - 1) * step)"
    using m unfolding f(2) hits_def by simp
  with le f(1) show ?L by blast
qed

lemma tier_iff:
  "x \<in> tier b color table \<longleftrightarrow>
     (\<exists>(q, dx, dy) \<in> set (solve_starts b). \<exists>(pat, ds) \<in> set table.
         fits b color q (dx + dy * NS b) pat \<and>
         (\<exists>dis \<in> set ds. x = q + (int (length pat) - 1 - dis) * (dx + dy * NS b)))"
proof -
  let ?G = "\<lambda>q dx dy (pat, ds).
           if fits b color q (dx + dy * NS b) pat
           then map (\<lambda>dis. q + (int (length pat) - 1 - dis) * (dx + dy * NS b)) ds
           else []"
  have G: "x \<in> set (?G q dx dy e) \<longleftrightarrow>
      (case e of (pat, ds) \<Rightarrow> fits b color q (dx + dy * NS b) pat \<and>
         (\<exists>dis \<in> set ds. x = q + (int (length pat) - 1 - dis) * (dx + dy * NS b)))"
    for q dx dy e
    by (cases e) auto
  have "x \<in> tier b color table \<longleftrightarrow>
      (\<exists>s \<in> set (solve_starts b). case s of (q, dx, dy) \<Rightarrow>
          \<exists>e \<in> set table. x \<in> set (?G q dx dy e))"
    unfolding tier_def tier_list_def
    by (simp add: split_beta) blast
  also have "\<dots> \<longleftrightarrow> (\<exists>(q, dx, dy) \<in> set (solve_starts b). \<exists>(pat, ds) \<in> set table.
         fits b color q (dx + dy * NS b) pat \<and>
         (\<exists>dis \<in> set ds. x = q + (int (length pat) - 1 - dis) * (dx + dy * NS b)))"
    unfolding G by (simp add: split_beta)
  finally show ?thesis .
qed

lemma first_nonempty:
  "(case dropWhile (\<lambda>s. s = {}) xs of [] \<Rightarrow> Inr None | s # _ \<Rightarrow> Inr (Some (f s)))
     = Inr (map_option f (find (\<lambda>t. t \<noteq> {}) xs))"
  by (induction xs) auto

lemma check_starts_tiers:
  "check_starts b (solve_starts b) [{}, {}, {}, {}] solve_patterns color
     = Some (map (tier b color) solve_patterns)"
proof -
  have good: "good_tables solve_patterns" by (rule good_solve_patterns)
  then have dj: "disjoint_tables solve_patterns" by (simp add: good_tables_def)
  have len: "length solve_patterns = length [{}, {}, {}, {} :: int set]"
    by (simp add: solve_patterns_def)
  from check_starts_nth [OF len dj, of b "solve_starts b" color] obtain final
    where final: "check_starts b (solve_starts b) [{}, {}, {}, {}] solve_patterns color = Some final"
      "length final = 4"
      "\<forall>i < 4. \<forall>x. x \<in> final ! i \<longleftrightarrow>
              x \<in> [{}, {}, {}, {}] ! i \<or>
              (\<exists>(q, dx, dy) \<in> set (solve_starts b). \<exists>j \<le> 9.
                  in_range_run b q (dx + dy * NS b) j \<and>
                  x \<in> hits (solve_patterns ! i) (signature b color q (dx + dy * NS b) j)
                        (\<lambda>dis. q + (int j - dis - 1) * (dx + dy * NS b)))"
    by auto
  have "final = map (tier b color) solve_patterns"
  proof (rule nth_equalityI)
    show "length final = length (map (tier b color) solve_patterns)"
      using final(2) by (simp add: solve_patterns_def)
  next
    fix i assume "i < length final"
    then have i: "i < 4" using final(2) by simp
    then have mem: "solve_patterns ! i \<in> set solve_patterns"
      by (intro nth_mem) (simp add: solve_patterns_def)
    with good have t: "distinct (map fst (solve_patterns ! i))"
      "\<forall>(pat, ds) \<in> set (solve_patterns ! i). length pat \<le> 9"
      unfolding good_tables_def by blast+
    have empty: "x \<notin> [{}, {}, {}, {}] ! i" for x :: int
      using i by (auto simp: less_Suc_eq numeral_eq_Suc nth_Cons')
    have "x \<in> final ! i \<longleftrightarrow> x \<in> tier b color (solve_patterns ! i)" for x
      using final(3) i empty [of x]
      unfolding tier_iff hits_table_iff [OF t, symmetric]
      by (simp add: split_beta)
    then have "final ! i = tier b color (solve_patterns ! i)" by blast
    moreover have "length solve_patterns = 4" by (simp add: solve_patterns_def)
    ultimately show "final ! i = map (tier b color) solve_patterns ! i"
      using i by simp
  qed
  with final(1) show ?thesis by simp
qed

lemma list_solve_point_eq:
  "list_solve_point set_order b
     = Inr (map_option set_order
              (find (\<lambda>t. t \<noteq> {}) (map (tier b (current_player b)) solve_patterns)))"
  unfolding list_solve_point_def check_starts_tiers
  by (simp add: first_nonempty)

text \<open>
  C4. \<open>list_solve_point\<close> returns the list of the first tier that is not empty, in the
  order win, block a win, make an open four, block an open four, and \<open>None\<close> when all
  four are empty. So whenever a win pattern of the player to move is on the board, the
  result is the list of the win tier, whatever the block tier holds.
\<close>

theorem list_solve_point_priority:
  "list_solve_point set_order b
     = Inr (map_option set_order
              (find (\<lambda>t. t \<noteq> {}) (map (tier b (current_player b)) solve_patterns))) \<and>
   (tier b (current_player b) (solve_patterns ! 0) \<noteq> {} \<longrightarrow>
      list_solve_point set_order b
        = Inr (Some (set_order (tier b (current_player b) (solve_patterns ! 0)))))"
proof -
  have "tier b (current_player b) (solve_patterns ! 0) \<noteq> {} \<Longrightarrow>
      find (\<lambda>t. t \<noteq> {}) (map (tier b (current_player b)) solve_patterns)
        = Some (tier b (current_player b) (solve_patterns ! 0))"
    by (simp add: solve_patterns_def)
  with list_solve_point_eq [of set_order b] show ?thesis by simp
qed

theorem list_solve_point_priority_witness:
  "tier (with_stones WHITE [33, 34, 35, 36] (with_stones BLACK [18, 19, 20, 21] (reset 7))) BLACK
      (solve_patterns ! 0) = {17, 22} \<and>
   tier (with_stones WHITE [33, 34, 35, 36] (with_stones BLACK [18, 19, 20, 21] (reset 7))) BLACK
      (solve_patterns ! 1) = {37} \<and>
   list_solve_point sorted_list_of_set
      (with_stones WHITE [33, 34, 35, 36] (with_stones BLACK [18, 19, 20, 21] (reset 7)))
     = Inr (Some [17, 22])"
proof -
  let ?b = "with_stones WHITE [33, 34, 35, 36] (with_stones BLACK [18, 19, 20, 21] (reset 7))"
  have cur: "current_player ?b = BLACK" by code_simp
  have t0: "tier ?b BLACK (solve_patterns ! 0) = {17, 22}" by code_simp
  have t1: "tier ?b BLACK (solve_patterns ! 1) = {37}" by code_simp
  have ne: "tier ?b (current_player ?b) (solve_patterns ! 0) \<noteq> {}"
    unfolding cur t0 by simp
  have s: "sorted_list_of_set {17, 22 :: int} = [17, 22]" by code_simp
  from list_solve_point_priority [of sorted_list_of_set ?b] ne
  have "list_solve_point sorted_list_of_set ?b
      = Inr (Some (sorted_list_of_set (tier ?b (current_player ?b) (solve_patterns ! 0))))"
    by blast
  then show ?thesis unfolding cur t0 s using t0 t1 by simp
qed

section \<open>The threat bookkeeping of \<open>negaAB\<close>\<close>

text \<open>
  What \<open>negaAB\<close> does at a nonzero depth, with an empty point left and no win of the
  player to move reported, by the number of entries of the two opponent lists of
  \<open>winDetection\<close>: more than one entry in \<open>theirWins\<close>, or one entry and a non-empty
  \<open>their2mWins\<close>, returns \<open>-1\<close> with the board untouched; one entry and an empty
  \<open>their2mWins\<close> plays that entry and nothing else.
\<close>

theorem negaAB_threat_branches:
  assumes empty: "get_empty_points b \<noteq> []"
    and wd: "winDetection b = Inr ([], theirWins, my2mWins, their2mWins)"
  shows "(length theirWins > 1 \<longrightarrow>
            negaAB h (Suc d) b alpha beta prev_move = Inr ((- 1, Some (theirWins ! 0)), b)) \<and>
         (length theirWins = 1 \<and> length their2mWins > 0 \<longrightarrow>
            negaAB h (Suc d) b alpha beta prev_move = Inr ((- 1, Some (theirWins ! 0)), b)) \<and>
         (length theirWins = 1 \<and> length their2mWins = 0 \<longrightarrow>
            negaAB h (Suc d) b alpha beta prev_move
              = forced_move (negaAB h d) b alpha beta (theirWins ! 0))"
  using empty wd by (simp add: negaAB_body_def)

theorem negaAB_threat_branches_witness:
  "negaAB (\<lambda>b. 0) (Suc 0) (with_stones WHITE [17, 18, 19, 20] (reset 7)) (- 1) 1 None
     = forced_move (negaAB (\<lambda>b. 0) 0) (with_stones WHITE [17, 18, 19, 20] (reset 7)) (- 1) 1 21"
proof -
  let ?b = "with_stones WHITE [17, 18, 19, 20] (reset 7)"
  have e: "get_empty_points ?b \<noteq> []" by code_simp
  have w: "winDetection ?b = Inr ([], [21], [], [])" by code_simp
  from negaAB_threat_branches [OF e w, of "\<lambda>b. 0" 0 "- 1" 1 None] show ?thesis by simp
qed

text \<open>
  C8 at a position with one blocking point found through three windows. White has
  the stones 17, 18, 19 and 21, 22, 23 of one row, Black six stones that make no
  pattern, Black is to move. Point 20 is the only point where White wins at once, no
  two-move threat is reported, and after a Black stone on 20 White has no win left;
  but \<open>winDetection\<close> lists point 20 three times, and \<open>negaAB\<close> returns the loss value
  \<open>-1\<close> without playing it.
\<close>

theorem negaAB_one_point_three_windows:
  "winDetection (with_stones BLACK [9, 11, 13, 41, 43, 45]
       (with_stones WHITE [17, 18, 19, 21, 22, 23] (reset 7)))
     = Inr ([], [20, 20, 20], [], []) \<and>
   winDetection ((with_stones BLACK [9, 11, 13, 41, 43, 45, 20]
       (with_stones WHITE [17, 18, 19, 21, 22, 23] (reset 7)))\<lparr>current_player := WHITE\<rparr>)
     = Inr ([], [], [], []) \<and>
   negaAB h (Suc d) (with_stones BLACK [9, 11, 13, 41, 43, 45]
       (with_stones WHITE [17, 18, 19, 21, 22, 23] (reset 7))) alpha beta prev_move
     = Inr ((- 1, Some 20), with_stones BLACK [9, 11, 13, 41, 43, 45]
           (with_stones WHITE [17, 18, 19, 21, 22, 23] (reset 7)))"
proof -
  let ?b = "with_stones BLACK [9, 11, 13, 41, 43, 45]
       (with_stones WHITE [17, 18, 19, 21, 22, 23] (reset 7))"
  have e: "get_empty_points ?b \<noteq> []" by code_simp
  have w: "winDetection ?b = Inr ([], [20, 20, 20], [], [])" by code_simp
  have after: "winDetection ((with_stones BLACK [9, 11, 13, 41, 43, 45, 20]
       (with_stones WHITE [17, 18, 19, 21, 22, 23] (reset 7)))\<lparr>current_player := WHITE\<rparr>)
     = Inr ([], [], [], [])" by code_simp
  have "negaAB h (Suc d) ?b alpha beta prev_move = Inr ((- 1, Some 20), ?b)"
    using e w by (simp add: negaAB_body_def)
  with w after show ?thesis by simp
qed

lemma piece_char_dot: "piece_char c v = CHR ''.'' \<longleftrightarrow> v = EMPTY"
  by (simp add: piece_char_def)

lemma solve_patterns_dots:
  assumes "i < 4" and "(pat, ds) \<in> set (solve_patterns ! i)" and "dis \<in> set ds"
  shows "0 \<le> dis \<and> dis < int (length pat) \<and> pat ! nat (int (length pat) - 1 - dis) = CHR ''.''"
proof -
  from assms(1) consider "i = 0" | "i = 1" | "i = 2" | "i = 3" by linarith
  then show ?thesis
    using assms(2,3) by cases (auto simp: solve_patterns_def)
qed

lemma np_get_in_range:
  "0 \<le> x \<Longrightarrow> x < int (length cells) \<Longrightarrow> cells ! nat x = v \<Longrightarrow> np_get cells x = Inr v"
  by (simp add: np_get_nonneg)

lemma tier_empty:
  assumes x: "x \<in> tier b c (solve_patterns ! i)" and i: "i < 4"
  shows "0 \<le> x \<and> x < int (length (board b)) \<and> board b ! nat x = EMPTY"
proof -
  from x obtain q dx dy pat ds dis where
    pat: "(pat, ds) \<in> set (solve_patterns ! i)" and fits: "fits b c q (dx + dy * NS b) pat"
    and dis: "dis \<in> set ds" and xeq: "x = q + (int (length pat) - 1 - dis) * (dx + dy * NS b)"
    unfolding tier_iff by blast
  from solve_patterns_dots [OF i pat dis]
  have d: "0 \<le> dis" "dis < int (length pat)"
    "pat ! nat (int (length pat) - 1 - dis) = CHR ''.''" by simp_all
  define j where "j = nat (int (length pat) - 1 - dis)"
  have j: "j < length pat" "int j = int (length pat) - 1 - dis"
    using d by (simp_all add: j_def)
  from fits j(1) have "0 \<le> q + int j * (dx + dy * NS b) \<and>
      q + int j * (dx + dy * NS b) < int (length (board b)) \<and>
      piece_char c (board b ! nat (q + int j * (dx + dy * NS b))) = pat ! j"
    unfolding fits_def by simp
  then show ?thesis
    using d(3) unfolding xeq j(2) [symmetric] j_def [symmetric] by (simp add: piece_char_dot)
qed

lemma list_solve_point_empty:
  assumes so: "\<And>S. set (set_order S) \<subseteq> S"
    and res: "list_solve_point set_order b = Inr (Some (p # ps))"
  shows "0 \<le> p \<and> p < int (length (board b)) \<and> board b ! nat p = EMPTY"
proof -
  from res obtain t where
    t: "find (\<lambda>t. t \<noteq> {}) (map (tier b (current_player b)) solve_patterns) = Some t"
    and l: "set_order t = p # ps"
    unfolding list_solve_point_eq by auto
  from t obtain i where "i < length (map (tier b (current_player b)) solve_patterns)"
    "t = map (tier b (current_player b)) solve_patterns ! i"
    unfolding find_Some_iff by blast
  moreover have "length solve_patterns = 4" by (simp add: solve_patterns_def)
  ultimately have i: "i < 4" and teq: "t = tier b (current_player b) (solve_patterns ! i)"
    by simp_all
  from so [of t] l have "p \<in> t" by auto
  with teq i show ?thesis by (auto dest: tier_empty)
qed

lemma try_move_frame:
  assumes rec: "\<And>b1 a be dd r b2. rec b1 a be dd = Inr (r, b2) \<Longrightarrow> b2 = b1"
    and m: "0 \<le> m" "m < int (length (board b))" "board b ! nat m = EMPTY"
    and res: "try_move rec b alpha beta d m = Inr (r, b')"
  shows "b' = b"
proof -
  have idx: "np_index (board b) m = Some (nat m)"
    using m by (simp add: np_index_nonneg)
  have bw: "is_black_white (current_player b)"
    using res by (auto simp: try_move_def play_move_gomoku_def split: if_splits)
  let ?b1 = "b\<lparr>board := (board b)[nat m := current_player b],
               current_player := opponent (current_player b)\<rparr>"
  have play: "play_move_gomoku b (Some m) (current_player b) = Inr (True, ?b1)"
    by (rule play_move_gomoku_empty [OF bw idx m(3)])
  from res play obtain r' b2 where r': "rec ?b1 (- beta) (- alpha) (d - 1) = Inr (r', b2)"
    and u: "undo b2 m = Inr b'"
    by (auto simp: try_move_def split: sum.splits)
  from rec [OF r'] have "b2 = ?b1" .
  with u undo_played [OF idx m(3), of "current_player b"] show ?thesis by simp
qed

lemma alphabeta_loop_frame:
  assumes rec: "\<And>b1 a be dd r b2. rec b1 a be dd = Inr (r, b2) \<Longrightarrow> b2 = b1"
    and ms: "\<forall>m \<in> set ms. 0 \<le> m \<and> m < int (length (board b)) \<and> board b ! nat m = EMPTY"
    and res: "alphabeta_loop rec b alpha beta d ms = Inr (v, b')"
  shows "b' = b"
  using ms res
proof (induction ms arbitrary: alpha)
  case Nil
  then show ?case by simp
next
  case (Cons m ms)
  from Cons.prems(2) obtain result b1 where t: "try_move rec b alpha beta d m = Inr (result, b1)"
    by (auto split: sum.splits)
  have b1: "b1 = b"
    using Cons.prems(1) by (intro try_move_frame [OF rec _ _ _ t]) auto
  show ?case
  proof (cases "result \<ge> beta")
    case True
    with Cons.prems(2) t b1 show ?thesis by simp
  next
    case False
    with Cons.prems(2) t b1
    have "alphabeta_loop rec b (if result > alpha then result else alpha) beta d ms = Inr (v, b')"
      by (simp add: Let_def)
    with Cons.IH Cons.prems(1) show ?thesis by simp
  qed
qed

lemma get_empty_points_mem:
  "m \<in> set (get_empty_points b) \<longleftrightarrow> 0 \<le> m \<and> m < int (length (board b)) \<and> board b ! nat m = EMPTY"
  by (simp add: get_empty_points_def where1d_mem)

lemma alphabeta_frame:
  assumes so: "\<And>S. set (set_order S) \<subseteq> S"
  shows "alphabeta set_order h limit b alpha beta d = Inr (v, b') \<Longrightarrow> b' = b"
proof (induction limit arbitrary: b alpha beta d v b')
  case 0
  then show ?case by simp
next
  case (Suc limit)
  have rec: "\<And>b1 a be dd r b2. alphabeta set_order h limit b1 a be dd = Inr (r, b2) \<Longrightarrow> b2 = b1"
    by (rule Suc.IH)
  from Suc.prems obtain ge where ge: "game_end b = Inr ge"
    by (auto split: sum.splits)
  show ?case
  proof (cases ge)
    case (Some result)
    with Suc.prems ge show ?thesis by simp
  next
    case None
    from Suc.prems ge None obtain sp where sp: "list_solve_point set_order b = Inr sp"
      by (auto split: sum.splits)
    show ?thesis
    proof (cases "\<exists>p ps. sp = Some (p # ps)")
      case True
      then obtain p ps where pp: "sp = Some (p # ps)" by blast
      from list_solve_point_empty [OF so, of b p ps] sp pp
      have p: "0 \<le> p" "p < int (length (board b))" "board b ! nat p = EMPTY" by simp_all
      from Suc.prems ge None sp pp obtain result b1
        where t: "try_move (alphabeta set_order h limit) b alpha beta d p = Inr (result, b1)"
          and out: "b' = b1"
        by (auto simp: Let_def split: sum.splits if_splits)
      from try_move_frame [OF rec p t] out show ?thesis by simp
    next
      case False
      show ?thesis
      proof (cases "d \<le> 0")
        case True
        with Suc.prems ge None sp False show ?thesis
          by (cases sp) (auto split: list.splits)
      next
        case dpos: False
        with Suc.prems ge None sp False
        have loop: "alphabeta_loop (alphabeta set_order h limit) b alpha beta d
                (generate_legal_moves_gomoku b) = Inr (v, b')"
          by (cases sp) (auto split: list.splits)
        have legal: "\<forall>m \<in> set (generate_legal_moves_gomoku b).
            0 \<le> m \<and> m < int (length (board b)) \<and> board b ! nat m = EMPTY"
          by (simp add: generate_legal_moves_gomoku_def get_empty_points_mem)
        show ?thesis
          by (rule alphabeta_loop_frame [OF rec legal loop])
      qed
    qed
  qed
qed

lemma where1d_length: "length (where1d P xs) = card {i. i < length xs \<and> P (xs ! i)}"
proof -
  have "length (where1d P xs) = length (filter (\<lambda>i. P (xs ! i)) [0..<length xs])"
    by (simp add: where1d_def)
  also have "\<dots> = card {i. i < length [0..<length xs] \<and> P (xs ! ([0..<length xs] ! i))}"
    by (rule length_filter_conv_card)
  also have "{i. i < length [0..<length xs] \<and> P (xs ! ([0..<length xs] ! i))}
      = {i. i < length xs \<and> P (xs ! i)}" by auto
  finally show ?thesis .
qed

lemma after_move_fewer_empty:
  assumes m: "0 \<le> m" "m < int (length (board b))" "board b ! nat m = EMPTY"
    and bw: "is_black_white (current_player b)"
  shows "length (get_empty_points (after_move b m)) < length (get_empty_points b)"
proof -
  let ?A = "{i. i < length (board b) \<and> (board b)[nat m := current_player b] ! i = EMPTY}"
  let ?B = "{i. i < length (board b) \<and> board b ! i = EMPTY}"
  have ne: "current_player b \<noteq> EMPTY" using bw by (auto simp: is_black_white_def)
  have "?A \<subseteq> ?B"
  proof
    fix i assume "i \<in> ?A"
    then have i: "i < length (board b)" "(board b)[nat m := current_player b] ! i = EMPTY"
      by simp_all
    with ne have "i \<noteq> nat m" by auto
    with i show "i \<in> ?B" by simp
  qed
  moreover have "nat m \<in> ?B" "nat m \<notin> ?A" using m ne by auto
  ultimately have "?A \<subset> ?B" by blast
  moreover have "finite ?B" by simp
  ultimately have "card ?A < card ?B" by (rule psubset_card_mono [rotated])
  then show ?thesis
    by (simp add: get_empty_points_def where1d_length after_move_def)
qed

lemma after_move_wf:
  assumes wf: "wf_board b" and m: "0 \<le> m" "m < int (length (board b))" "board b ! nat m = EMPTY"
    and bw: "is_black_white (current_player b)"
  shows "wf_board (after_move b m) \<and> is_black_white (current_player (after_move b m))"
proof -
  have ne: "current_player b \<noteq> BORDER" using bw by (auto simp: is_black_white_def)
  have "\<forall>i \<in> set [0..<length (board b)].
      ((board b)[nat m := current_player b] ! i \<noteq> BORDER) = (board b ! i \<noteq> BORDER)"
    using ne m by (auto simp: nth_list_update)
  with wf have "wf_board (after_move b m)"
    unfolding wf_board_def after_move_def by simp
  moreover have "is_black_white (opponent (current_player b))"
    using bw by (auto simp: is_black_white_def)
  ultimately show ?thesis by (simp add: after_move_def)
qed

lemma check_game_end_gomoku_returns:
  assumes "wf_board b"
  shows "\<exists>r. check_game_end_gomoku b = Inr r"
proof -
  have w: "any_point b (where1d (\<lambda>x. x = WHITE) (board b)) = Inr (has_five b WHITE)"
    using assms by (intro any_point_has_five) auto
  have k: "any_point b (where1d (\<lambda>x. x = BLACK) (board b)) = Inr (has_five b BLACK)"
    using assms by (intro any_point_has_five) auto
  show ?thesis
    by (cases "has_five b WHITE"; cases "has_five b BLACK")
      (auto simp: check_game_end_gomoku_def w k)
qed

lemma game_end_returns:
  assumes "wf_board b"
  shows "\<exists>r. game_end b = Inr r"
  using check_game_end_gomoku_returns [OF assms]
  by (auto simp: game_end_def Let_def split: prod.splits)

lemma try_move_returns:
  assumes m: "0 \<le> m" "m < int (length (board b))" "board b ! nat m = EMPTY"
    and bw: "is_black_white (current_player b)"
    and rec: "rec (after_move b m) (- beta) (- alpha) (d - 1) = Inr (r, after_move b m)"
  shows "try_move rec b alpha beta d m = Inr (- r, b)"
proof -
  have idx: "np_index (board b) m = Some (nat m)"
    using m by (simp add: np_index_nonneg)
  have play: "play_move_gomoku b (Some m) (current_player b) = Inr (True, after_move b m)"
    using play_move_gomoku_empty [OF bw idx m(3)] by (simp add: after_move_def)
  have "undo (after_move b m) m = Inr b"
    using undo_played [OF idx m(3), of "current_player b"] by (simp add: after_move_def)
  with play rec show ?thesis by (simp add: try_move_def)
qed

lemma alphabeta_loop_returns:
  assumes bw: "is_black_white (current_player b)"
    and ms: "\<forall>m \<in> set ms. 0 \<le> m \<and> m < int (length (board b)) \<and> board b ! nat m = EMPTY"
    and rec: "\<And>m a be dd. m \<in> set ms \<Longrightarrow> \<exists>r. rec (after_move b m) a be dd = Inr (r, after_move b m)"
  shows "\<exists>v. alphabeta_loop rec b alpha beta d ms = Inr (v, b)"
  using ms rec
proof (induction ms arbitrary: alpha)
  case Nil
  then show ?case by simp
next
  case (Cons m ms)
  from Cons.prems(2) [of m "- beta" "- alpha" "d - 1"] obtain r
    where r: "rec (after_move b m) (- beta) (- alpha) (d - 1) = Inr (r, after_move b m)" by auto
  have t: "try_move rec b alpha beta d m = Inr (- r, b)"
    using Cons.prems(1) by (intro try_move_returns [where rec = rec and r = r, OF _ _ _ bw r]) auto
  have "\<exists>v. alphabeta_loop rec b (if - r > alpha then - r else alpha) beta d ms = Inr (v, b)"
    using Cons.prems by (intro Cons.IH) auto
  with t show ?case by (auto simp: Let_def)
qed

lemma alphabeta_returns:
  assumes so: "\<And>S. set (set_order S) \<subseteq> S"
  shows "wf_board b \<Longrightarrow> is_black_white (current_player b) \<Longrightarrow>
         length (get_empty_points b) < limit \<Longrightarrow>
         \<exists>v. alphabeta set_order h limit b alpha beta d = Inr (v, b)"
proof (induction limit arbitrary: b alpha beta d)
  case 0
  then show ?case by simp
next
  case (Suc limit)
  note wf = Suc.prems(1) and bw = Suc.prems(2)
  have rec: "\<exists>r. alphabeta set_order h limit (after_move b m) a be dd = Inr (r, after_move b m)"
    if "0 \<le> m" "m < int (length (board b))" "board b ! nat m = EMPTY" for m a be dd
  proof -
    from after_move_wf [OF wf that bw] have "wf_board (after_move b m)"
      "is_black_white (current_player (after_move b m))" by simp_all
    moreover have "length (get_empty_points (after_move b m)) < limit"
      using after_move_fewer_empty [OF that bw] Suc.prems(3) by simp
    ultimately show ?thesis by (rule Suc.IH)
  qed
  from game_end_returns [OF wf] obtain ge where ge: "game_end b = Inr ge" ..
  show ?case
  proof (cases ge)
    case (Some result)
    with ge show ?thesis by simp
  next
    case None
    obtain sp where sp: "list_solve_point set_order b = Inr sp"
      by (simp add: list_solve_point_eq)
    show ?thesis
    proof (cases "\<exists>p ps. sp = Some (p # ps)")
      case True
      then obtain p ps where pp: "sp = Some (p # ps)" by blast
      from list_solve_point_empty [OF so, of b p ps] sp pp
      have p: "0 \<le> p" "p < int (length (board b))" "board b ! nat p = EMPTY" by simp_all
      from rec [OF p] obtain r where
        "alphabeta set_order h limit (after_move b p) (- beta) (- alpha) (d - 1)
           = Inr (r, after_move b p)" by blast
      from try_move_returns [where rec = "alphabeta set_order h limit" and r = r, OF p bw this]
        ge None sp pp show ?thesis
        by (simp add: Let_def)
    next
      case False
      show ?thesis
      proof (cases "d \<le> 0")
        case True
        with ge None sp False show ?thesis
          by (cases sp) (auto split: list.splits)
      next
        case dpos: False
        have legal: "\<forall>m \<in> set (generate_legal_moves_gomoku b).
            0 \<le> m \<and> m < int (length (board b)) \<and> board b ! nat m = EMPTY"
          by (simp add: generate_legal_moves_gomoku_def get_empty_points_mem)
        have "\<exists>v. alphabeta_loop (alphabeta set_order h limit) b alpha beta d
                (generate_legal_moves_gomoku b) = Inr (v, b)"
          using legal rec by (intro alphabeta_loop_returns [OF bw legal]) auto
        with ge None sp False dpos show ?thesis
          by (cases sp) (auto split: list.splits)
      qed
    qed
  qed
qed

section \<open>The points \<open>winDetection\<close> reports are empty cells\<close>

lemma getPointRep_dot:
  "getPointRep b cp p = Inr CHR ''.'' \<Longrightarrow> np_get (board b) p = Inr EMPTY"
  by (auto simp: getPointRep_def split: sum.splits if_splits)

lemma threatDict_dots:
  assumes "map_of threatDict s = Some (mine, t)"
  shows "length s = 6 \<and> 1 \<le> t \<and> t \<le> 4 \<and> rev s ! nat t = CHR ''.''"
proof -
  from assms have "(s, (mine, t)) \<in> set threatDict" by (rule map_of_SomeD)
  then show ?thesis by (auto simp: threatDict_def)
qed

lemma winDict_dots:
  assumes "map_of winDict s = Some mine"
  shows "length s = 5 \<and> 0 \<le> str_index s CHR ''.'' \<and> str_index s CHR ''.'' \<le> 4 \<and>
         rev s ! nat (4 - str_index s CHR ''.'') = CHR ''.''"
proof -
  from assms have "(s, mine) \<in> set winDict" by (rule map_of_SomeD)
  then show ?thesis by (auto simp: winDict_def str_index_def)
qed

lemma window_reads_empty:
  assumes "window_reads b w pt step" and "0 \<le> t" and "t < int (length w)"
    and "rev w ! nat t = CHR ''.''"
  shows "np_get (board b) (pt - (t + 1) * step) = Inr EMPTY"
proof -
  from assms(2,3) have "nat t < length w" "int (nat t) = t" by simp_all
  with assms(1) have "getPointRep b (current_player b) (pt - (t + 1) * step) = Inr (rev w ! nat t)"
    unfolding window_reads_def by metis
  with assms(4) show ?thesis by (simp add: getPointRep_dot)
qed

lemma window_reads_snoc:
  assumes inv: "window_reads b w pt step" and ch: "getPointRep b (current_player b) pt = Inr ch"
  shows "window_reads b (w @ [ch]) (pt + step) step"
  unfolding window_reads_def
proof (intro allI impI)
  fix k assume k: "k < length (w @ [ch])"
  show "getPointRep b (current_player b) (pt + step - (int k + 1) * step)
            = Inr (rev (w @ [ch]) ! k)"
  proof (cases k)
    case 0
    with ch show ?thesis by simp
  next
    case (Suc k')
    with k have "k' < length w" by simp
    with inv have "getPointRep b (current_player b) (pt - (int k' + 1) * step)
        = Inr (rev w ! k')" unfolding window_reads_def by blast
    moreover have eq: "pt + step - (int (Suc k') + 1) * step = pt - (int k' + 1) * step"
      by (simp add: algebra_simps)
    ultimately have "getPointRep b (current_player b) (pt + step - (int (Suc k') + 1) * step)
        = Inr (rev w ! k')" by (simp only: eq)
    then show ?thesis using Suc by simp
  qed
qed

lemma window_reads_tl:
  assumes "window_reads b w pt step"
  shows "window_reads b (tl w) pt step"
  unfolding window_reads_def
proof (intro allI impI)
  fix k assume k: "k < length (tl w)"
  then have kw: "k < length w" by simp
  have "rev (tl w) ! k = rev w ! k"
    using nth_butlast [of k "rev w"] k by simp
  with assms kw show "getPointRep b (current_player b) (pt - (int k + 1) * step)
      = Inr (rev (tl w) ! k)"
    unfolding window_reads_def by simp
qed

lemma checkThreat_empty:
  assumes reads: "window_reads b w (pt + step) step"
    and bk: "\<forall>p \<in> set l3 \<union> set l4. np_get (board b) p = Inr EMPTY"
    and res: "checkThreat threatDict w l3 l4 pt step = (l3', l4')"
  shows "\<forall>p \<in> set l3' \<union> set l4'. np_get (board b) p = Inr EMPTY"
proof (cases "map_of threatDict w")
  case None
  with res bk show ?thesis by (simp add: checkThreat_def)
next
  case (Some threat)
  obtain mine t where threat: "threat = (mine, t)" by (cases threat)
  from threatDict_dots [of w mine t] Some threat
  have d: "length w = 6" "1 \<le> t" "t \<le> 4" "rev w ! nat t = CHR ''.''" by simp_all
  have "np_get (board b) (pt + step - (t + 1) * step) = Inr EMPTY"
    using d by (intro window_reads_empty [OF reads]) auto
  then have "np_get (board b) (pt - t * step) = Inr EMPTY"
    by (simp add: algebra_simps)
  with res bk Some threat show ?thesis
    by (auto simp: checkThreat_def split: if_splits)
qed

lemma checkWin_empty:
  assumes reads: "window_reads b w (pt + step) step"
    and bk: "\<forall>p \<in> set l1 \<union> set l2. np_get (board b) p = Inr EMPTY"
    and res: "checkWin winDict w l1 l2 pt step = (won, l1', l2')"
  shows "\<forall>p \<in> set l1' \<union> set l2'. np_get (board b) p = Inr EMPTY"
proof (cases "map_of winDict w")
  case None
  with res bk show ?thesis by (simp add: checkWin_def)
next
  case (Some mine)
  from winDict_dots [OF Some]
  have d: "length w = 5" "0 \<le> str_index w CHR ''.''" "str_index w CHR ''.'' \<le> 4"
    "rev w ! nat (4 - str_index w CHR ''.'') = CHR ''.''" by simp_all
  have "np_get (board b) (pt + step - (4 - str_index w CHR ''.'' + 1) * step) = Inr EMPTY"
    using d by (intro window_reads_empty [OF reads]) auto
  then have "np_get (board b) (pt + (str_index w CHR ''.'' - 4) * step) = Inr EMPTY"
    by (simp add: algebra_simps)
  with res bk Some show ?thesis
    by (auto simp: checkWin_def Let_def split: if_splits)
qed

lemma scan_point_inv:
  assumes reads: "window_reads b w pt step" and len: "length w \<le> 5"
    and bk: "empty_points_only b bk"
  shows "case scan_point b step pt (w, bk) of
           Inl e \<Rightarrow> True
         | Inr (Return r) \<Rightarrow> empty_points_only b r
         | Inr (Next (w', bk')) \<Rightarrow>
             window_reads b w' (pt + step) step \<and> length w' \<le> 5 \<and> empty_points_only b bk'"
proof (cases "getPointRep b (current_player b) pt")
  case (Inl e)
  then show ?thesis by (simp add: scan_point_def split: prod.splits)
next
  case (Inr ch)
  obtain l1 l2 l3 l4 where bkeq: "bk = (l1, l2, l3, l4)" by (cases bk)
  from bk bkeq have e12: "\<forall>p \<in> set l1 \<union> set l2. np_get (board b) p = Inr EMPTY"
    and e34: "\<forall>p \<in> set l3 \<union> set l4. np_get (board b) p = Inr EMPTY"
    by (auto simp: empty_points_only_def)
  let ?w1 = "w @ [ch]"
  have r1: "window_reads b ?w1 (pt + step) step" by (rule window_reads_snoc [OF reads Inr])
  obtain l3' l4' where th: "(if length ?w1 = 6
        then checkThreat threatDict ?w1 l3 l4 pt step else (l3, l4)) = (l3', l4')"
    by (cases "if length ?w1 = 6 then checkThreat threatDict ?w1 l3 l4 pt step else (l3, l4)")
  have e34': "\<forall>p \<in> set l3' \<union> set l4'. np_get (board b) p = Inr EMPTY"
  proof (cases "length ?w1 = 6")
    case True
    with th have "checkThreat threatDict ?w1 l3 l4 pt step = (l3', l4')" by simp
    from checkThreat_empty [OF r1 e34 this] show ?thesis .
  next
    case False
    with th e34 show ?thesis by auto
  qed
  let ?w2 = "if length ?w1 = 6 then tl ?w1 else ?w1"
  have r2: "window_reads b ?w2 (pt + step) step"
    using r1 window_reads_tl [OF r1] by simp
  have len2: "length ?w2 \<le> 5" using len by auto
  show ?thesis
  proof (cases "length ?w2 = 5")
    case True
    obtain won l1' l2' where cw: "checkWin winDict ?w2 l1 l2 pt step = (won, l1', l2')"
      by (cases "checkWin winDict ?w2 l1 l2 pt step")
    from checkWin_empty [OF r2 e12 cw]
    have e12': "\<forall>p \<in> set l1' \<union> set l2'. np_get (board b) p = Inr EMPTY" .
    have sp: "scan_point b step pt (w, bk) =
        (if won then Inr (Return (l1', [], [], []))
         else Inr (Next (?w2, l1', l2', l3', l4')))"
      using Inr bkeq th True cw by (simp add: scan_point_def Let_def)
    show ?thesis
      unfolding sp using e12' e34' r2 len2 by (auto simp: empty_points_only_def)
  next
    case False
    have sp: "scan_point b step pt (w, bk) = Inr (Next (?w2, l1, l2, l3', l4'))"
      using Inr bkeq th False by (simp add: scan_point_def Let_def)
    show ?thesis
      unfolding sp using e12 e34' r2 len2 by (auto simp: empty_points_only_def)
  qed
qed

lemma ap_list_Cons:
  assumes "ap_list a step (p # ps)"
  shows "p = a" and "ap_list (a + step) step ps"
proof -
  from assms have eq: "p # ps = map (\<lambda>i. a + int i * step) [0..<Suc (length ps)]"
    by (simp add: ap_list_def)
  have up: "[0..<Suc (length ps)] = 0 # map Suc [0..<length ps]"
    by (simp add: upt_conv_Cons map_Suc_upt del: upt_Suc)
  from eq show "p = a" unfolding up by simp
  from eq have "ps = map (\<lambda>i. a + int (Suc i) * step) [0..<length ps]"
    unfolding up by (simp add: comp_def del: upt_Suc)
  then show "ap_list (a + step) step ps"
    by (simp add: ap_list_def algebra_simps)
qed

lemma py_range_ap: "ap_list a step (py_range a e step)"
  by (simp add: ap_list_def py_range_def)

lemma scan_line_inv:
  assumes "ap_list a step pts" and "window_reads b w a step" and "length w \<le> 5"
    and "empty_points_only b bk"
  shows "case scan_line b step pts (w, bk) of
           Inl e \<Rightarrow> True
         | Inr (Return r) \<Rightarrow> empty_points_only b r
         | Inr (Next bk') \<Rightarrow> empty_points_only b bk'"
  using assms
proof (induction pts arbitrary: a w bk)
  case Nil
  then show ?case by simp
next
  case (Cons p ps)
  from ap_list_Cons [OF Cons.prems(1)] have p: "p = a" and ap: "ap_list (a + step) step ps"
    by simp_all
  from scan_point_inv [OF Cons.prems(2,3,4)]
  have sp: "case scan_point b step a (w, bk) of
           Inl e \<Rightarrow> True
         | Inr (Return r) \<Rightarrow> empty_points_only b r
         | Inr (Next (w', bk')) \<Rightarrow>
             window_reads b w' (a + step) step \<and> length w' \<le> 5 \<and> empty_points_only b bk'" .
  show ?case
  proof (cases "scan_point b step a (w, bk)")
    case (Inl e)
    with p show ?thesis by simp
  next
    case (Inr fl)
    show ?thesis
    proof (cases fl)
      case (Return r)
      with Inr sp p show ?thesis by simp
    next
      case (Next st)
      obtain w' bk' where st: "st = (w', bk')" by (cases st)
      from sp Inr Next st have inv: "window_reads b w' (a + step) step" "length w' \<le> 5"
        "empty_points_only b bk'" by simp_all
      from Cons.IH [OF ap inv] Inr Next st p show ?thesis by simp
    qed
  qed
qed

lemma scan_lines_inv:
  assumes "\<forall>line \<in> set lines. \<exists>a. ap_list a step line" and "empty_points_only b bk"
  shows "case scan_lines b step lines bk of
           Inl e \<Rightarrow> True
         | Inr (Return r) \<Rightarrow> empty_points_only b r
         | Inr (Next bk') \<Rightarrow> empty_points_only b bk'"
  using assms
proof (induction lines arbitrary: bk)
  case Nil
  then show ?case by simp
next
  case (Cons line lines)
  from Cons.prems(1) obtain a where ap: "ap_list a step line" by auto
  have w0: "window_reads b [] a step" "length ([] :: string) \<le> 5"
    by (simp_all add: window_reads_def)
  from scan_line_inv [OF ap w0 Cons.prems(2)]
  have sl: "case scan_line b step line ([], bk) of
           Inl e \<Rightarrow> True
         | Inr (Return r) \<Rightarrow> empty_points_only b r
         | Inr (Next bk') \<Rightarrow> empty_points_only b bk'" .
  show ?case
  proof (cases "scan_line b step line ([], bk)")
    case (Inl e)
    then show ?thesis by simp
  next
    case (Inr fl)
    show ?thesis
    proof (cases fl)
      case (Return r)
      with Inr sl show ?thesis by simp
    next
      case (Next bk')
      with Inr sl have "empty_points_only b bk'" by simp
      with Cons.IH [of bk'] Cons.prems(1) Inr Next show ?thesis by simp
    qed
  qed
qed

lemma diag_lines_ap: "\<forall>line \<in> set (diag_lines step starts dSize r). \<exists>a. ap_list a step line"
  by (induction starts arbitrary: dSize r) (auto intro: py_range_ap)

lemma horizontal_lines_ap: "\<forall>line \<in> set (horizontal_lines n). \<exists>a. ap_list a 1 line"
  by (auto simp: horizontal_lines_def intro: py_range_ap)

lemma vertical_lines_ap: "\<forall>line \<in> set (vertical_lines n). \<exists>a. ap_list a (n + 1) line"
  by (auto simp: vertical_lines_def intro: py_range_ap)

lemma diagonal_I_lines_ap: "\<forall>line \<in> set (diagonal_I_lines n). \<exists>a. ap_list a (n + 2) line"
  unfolding diagonal_I_lines_def Let_def by (rule diag_lines_ap)

lemma diagonal_II_lines_ap: "\<forall>line \<in> set (diagonal_II_lines n). \<exists>a. ap_list a n line"
  unfolding diagonal_II_lines_def Let_def by (rule diag_lines_ap)

lemma scan_lines_cases:
  assumes "case scan_lines b step lines bk of
           Inl e \<Rightarrow> True
         | Inr (Return r) \<Rightarrow> empty_points_only b r
         | Inr (Next bk') \<Rightarrow> empty_points_only b bk'"
  obtains e where "scan_lines b step lines bk = Inl e"
  | r where "scan_lines b step lines bk = Inr (Return r)" and "empty_points_only b r"
  | bk' where "scan_lines b step lines bk = Inr (Next bk')" and "empty_points_only b bk'"
  using assms by (cases "scan_lines b step lines bk") (auto split: flow.splits)

lemma winDetection_empty:
  assumes "winDetection b = Inr bk"
  shows "empty_points_only b bk"
proof -
  let ?n = "size_b b"
  have e0: "empty_points_only b ([], [], [], [])" by (simp add: empty_points_only_def)
  from scan_lines_inv [OF horizontal_lines_ap e0, of ?n] show ?thesis
  proof (cases rule: scan_lines_cases)
    case (1 e)
    with assms show ?thesis by (simp add: winDetection_def)
  next
    case (2 r)
    with assms show ?thesis by (simp add: winDetection_def)
  next
    case (3 bk1)
    from scan_lines_inv [OF vertical_lines_ap 3(2), of ?n] show ?thesis
    proof (cases rule: scan_lines_cases)
      case (1 e)
      with assms 3 show ?thesis by (simp add: winDetection_def)
    next
      case (2 r)
      with assms 3 show ?thesis by (simp add: winDetection_def)
    next
      case bk2: (3 bk2)
      from scan_lines_inv [OF diagonal_I_lines_ap bk2(2), of ?n] show ?thesis
      proof (cases rule: scan_lines_cases)
        case (1 e)
        with assms 3 bk2 show ?thesis by (simp add: winDetection_def)
      next
        case (2 r)
        with assms 3 bk2 show ?thesis by (simp add: winDetection_def)
      next
        case bk3: (3 bk3)
        from scan_lines_inv [OF diagonal_II_lines_ap bk3(2), of ?n] show ?thesis
        proof (cases rule: scan_lines_cases)
          case (1 e)
          with assms 3 bk2 bk3 show ?thesis by (simp add: winDetection_def)
        next
          case (2 r)
          with assms 3 bk2 bk3 show ?thesis by (simp add: winDetection_def)
        next
          case bk4: (3 bk4)
          with assms 3 bk2 bk3 show ?thesis by (simp add: winDetection_def)
        qed
      qed
    qed
  qed
qed

lemma np_get_EMPTY_index:
  assumes "np_get cells p = Inr EMPTY"
  obtains k where "np_index cells p = Some k" and "cells ! k = EMPTY"
  using assms by (auto simp: np_get_def split: option.splits)

lemma update_restore:
  "cells ! k = EMPTY \<Longrightarrow> cells[k := c, k := EMPTY] = cells"
  by (metis list_update_id list_update_overwrite)

lemma update_same: "cells ! k = EMPTY \<Longrightarrow> cells[k := EMPTY] = cells"
  by (metis list_update_id)

lemma forced_move_frame:
  assumes rec: "\<And>b1 a be pm res b2. rec b1 a be pm = Inr (res, b2) \<Longrightarrow> same_position b2 b1"
    and p: "np_get (board b) p = Inr EMPTY"
    and res: "forced_move rec b alpha beta p = Inr (res, b')"
  shows "same_position b' b"
proof -
  from p obtain k where k: "np_index (board b) p = Some k" "board b ! k = EMPTY"
    by (rule np_get_EMPTY_index)
  let ?b1 = "b\<lparr>board := (board b)[k := current_player b],
               current_player := opponent (current_player b)\<rparr>"
  from res k obtain r b2 where r: "rec ?b1 (- beta) (- alpha) (Some p) = Inr (r, b2)"
    by (auto simp: forced_move_def np_set_def Let_def split: sum.splits)
  from rec [OF r] have b2: "board b2 = (board b)[k := current_player b]"
    "current_player b2 = opponent (current_player b)" "size_b b2 = size_b b" "NS b2 = NS b"
    by (simp_all add: same_position_def)
  have idx2: "np_index (board b2) p = Some k"
    using k(1) b2(1) by (simp add: np_index_update)
  from res k r idx2 have "b' = b2\<lparr>current_player := opponent (current_player b2),
      board := (board b2)[k := EMPTY]\<rparr>"
    by (auto simp: forced_move_def np_set_def Let_def)
  then show ?thesis
    using b2 k(2) by (simp add: same_position_def update_restore update_same opponent_opponent)
qed

lemma negaAB_loop_frame:
  assumes rec: "\<And>b1 a be pm res b2. rec b1 a be pm = Inr (res, b2) \<Longrightarrow> same_position b2 b1"
  shows "\<forall>p \<in> set pts. np_get (board b) p = Inr EMPTY \<Longrightarrow>
         negaAB_loop rec b alpha beta pts point = Inr (res, b') \<Longrightarrow> same_position b' b"
proof (induction pts arbitrary: b alpha point)
  case Nil
  then show ?case by (simp add: same_position_def)
next
  case (Cons p rest)
  from Cons.prems(1) have "np_get (board b) p = Inr EMPTY" by simp
  then obtain k where k: "np_index (board b) p = Some k" "board b ! k = EMPTY"
    by (rule np_get_EMPTY_index)
  let ?b1 = "b\<lparr>board := (board b)[k := current_player b]\<rparr>"
  have set1: "np_set (board b) p (current_player b) = Inr ((board b)[k := current_player b])"
    using k by (simp add: np_set_def)
  have idx1: "np_index (board ?b1) p = Some k"
    using k(1) by (simp add: np_index_update)
  from Cons.prems(2) set1 obtain won where won: "point_check_game_end_gomoku ?b1 p = Inr won"
    by (auto simp: Let_def split: sum.splits)
  show ?case
  proof (cases won)
    case True
    with Cons.prems(2) set1 won idx1
    have "b' = ?b1\<lparr>board := (board ?b1)[k := EMPTY]\<rparr>"
      by (auto simp: Let_def np_set_def)
    then show ?thesis using k(2) by (simp add: same_position_def update_restore update_same)
  next
    case False
    let ?b2 = "?b1\<lparr>current_player := opponent (current_player ?b1)\<rparr>"
    from Cons.prems(2) set1 won False obtain r b3
      where r: "rec ?b2 (- beta) (- alpha) (Some p) = Inr (r, b3)"
      by (auto simp: Let_def split: sum.splits)
    from rec [OF r] have b3: "board b3 = (board b)[k := current_player b]"
      "current_player b3 = opponent (current_player b)" "size_b b3 = size_b b" "NS b3 = NS b"
      by (simp_all add: same_position_def)
    let ?b5 = "b3\<lparr>current_player := opponent (current_player b3),
                 board := (board b3)[k := EMPTY]\<rparr>"
    have idx3: "np_index (board b3) p = Some k"
      using k(1) b3(1) by (simp add: np_index_update)
    have b5: "same_position ?b5 b"
      using b3 k(2) by (simp add: same_position_def update_restore update_same opponent_opponent)
    show ?thesis
    proof (cases "- fst r \<ge> beta")
      case True
      with Cons.prems(2) set1 won False r idx3 have "b' = ?b5"
        by (auto simp: Let_def np_set_def)
      with b5 show ?thesis by simp
    next
      case nocut: False
      with Cons.prems(2) set1 won False r idx3
      have loop: "negaAB_loop rec ?b5 (if - fst r > alpha then - fst r else alpha) beta rest p
          = Inr (res, b')"
        by (auto simp: Let_def np_set_def)
      have "\<forall>q \<in> set rest. np_get (board ?b5) q = Inr EMPTY"
        using Cons.prems(1) b5 by (simp add: same_position_def)
      from Cons.IH [OF this loop] b5 show ?thesis by (simp add: same_position_def)
    qed
  qed
qed

lemma negaAB_frame:
  "negaAB h d b alpha beta prev_move = Inr (res, b') \<Longrightarrow> same_position b' b"
proof (induction d arbitrary: b alpha beta prev_move res b')
  case 0
  then show ?case
    by (auto simp: Let_def same_position_def split: if_splits)
next
  case (Suc d)
  have rec: "\<And>b1 a be pm res b2. negaAB h d b1 a be pm = Inr (res, b2) \<Longrightarrow> same_position b2 b1"
    by (rule Suc.IH)
  from Suc.prems have body: "negaAB_body (negaAB h d) b alpha beta = Inr (res, b')" by simp
  show ?case
  proof (cases "length (get_empty_points b) = 0")
    case True
    with body show ?thesis by (simp add: negaAB_body_def same_position_def)
  next
    case False
    with body obtain l1 l2 l3 l4 where wd: "winDetection b = Inr (l1, l2, l3, l4)"
      by (auto simp: negaAB_body_def Let_def split: sum.splits)
    from winDetection_empty [OF wd]
    have e: "\<forall>p \<in> set l1 \<union> set l2 \<union> set l3 \<union> set l4. np_get (board b) p = Inr EMPTY"
      by (simp add: empty_points_only_def)
    have e2: "length l2 = 1 \<Longrightarrow> np_get (board b) (l2 ! 0) = Inr EMPTY"
      using e by (cases l2) auto
    have e4: "length l4 = 1 \<Longrightarrow> np_get (board b) (l4 ! 0) = Inr EMPTY"
      using e by (cases l4) auto
    have empties: "\<forall>p \<in> set (rev (get_empty_points b)). np_get (board b) p = Inr EMPTY"
      by (simp add: get_empty_points_mem np_get_nonneg)
    consider (ret) "b' = b"
      | (f2) "length l2 = 1" "forced_move (negaAB h d) b alpha beta (l2 ! 0) = Inr (res, b')"
      | (f4) "length l4 = 1" "forced_move (negaAB h d) b alpha beta (l4 ! 0) = Inr (res, b')"
      | (loop) "negaAB_loop (negaAB h d) b alpha beta (rev (get_empty_points b))
                  (get_empty_points b ! 0) = Inr (res, b')"
      using body False wd
      by (auto simp: negaAB_body_def Let_def split: if_splits)
    then show ?thesis
    proof cases
      case ret
      then show ?thesis by (simp add: same_position_def)
    next
      case f2
      from forced_move_frame [OF rec e2 [OF f2(1)] f2(2)] show ?thesis .
    next
      case f4
      from forced_move_frame [OF rec e4 [OF f4(1)] f4(2)] show ?thesis .
    next
      case loop
      from negaAB_loop_frame [OF rec empties loop] show ?thesis .
    qed
  qed
qed

section \<open>The searches leave the board as they found it\<close>

text \<open>
  C7. When \<open>list(s)\<close> lists only elements of the set \<open>s\<close>: a call of \<open>alphabeta\<close>
  that returns leaves the board exactly as it was, and on a board with its border in
  place, a player color to move and a recursion limit above the number of empty
  points it does return, for every window and depth. A call of \<open>negaAB\<close> that returns
  leaves the cells and \<open>current_player\<close> as they were (it may write \<open>best_move\<close> and
  \<open>best_move_score\<close>).
\<close>

theorem searches_restore_board:
  assumes so: "\<And>S. set (set_order S) \<subseteq> S"
  shows "(\<forall>v b'. alphabeta set_order h limit b alpha beta d = Inr (v, b') \<longrightarrow> b' = b) \<and>
         (wf_board b \<and> is_black_white (current_player b) \<and>
          length (get_empty_points b) < limit \<longrightarrow>
            (\<exists>v. alphabeta set_order h limit b alpha beta d = Inr (v, b))) \<and>
         (\<forall>res b'. negaAB h n b alpha beta prev_move = Inr (res, b') \<longrightarrow>
            board b' = board b \<and> current_player b' = current_player b)"
proof (intro conjI allI impI)
  fix v b' assume "alphabeta set_order h limit b alpha beta d = Inr (v, b')"
  then show "b' = b" by (rule alphabeta_frame [OF so])
next
  assume "wf_board b \<and> is_black_white (current_player b) \<and> length (get_empty_points b) < limit"
  then show "\<exists>v. alphabeta set_order h limit b alpha beta d = Inr (v, b)"
    using alphabeta_returns [OF so] by blast
next
  fix res b' assume "negaAB h n b alpha beta prev_move = Inr (res, b')"
  then have "same_position b' b" by (rule negaAB_frame)
  then show "board b' = board b" "current_player b' = current_player b"
    by (simp_all add: same_position_def)
qed

theorem searches_restore_board_witness:
  "(\<exists>v. alphabeta sorted_list_of_set (\<lambda>b. 0) 5 (reset 2) (- 1) 1 1 = Inr (v, reset 2)) \<and>
   negaAB (\<lambda>b. 0) 2 (reset 2) (- 1) 1 None
     = Inr ((0, Some 4), (reset 2)\<lparr>best_move := Some 7, best_move_score := 0\<rparr>) \<and>
   board ((reset 2)\<lparr>best_move := Some 7, best_move_score := 0\<rparr>) = board (reset 2)"
proof -
  have so: "\<And>S :: int set. set (sorted_list_of_set S) \<subseteq> S"
  proof -
    fix S :: "int set"
    show "set (sorted_list_of_set S) \<subseteq> S"
      by (cases "finite S") simp_all
  qed
  have wf: "wf_board (reset 2)" by code_simp
  have bw: "is_black_white (current_player (reset 2))" by code_simp
  have len: "length (get_empty_points (reset 2)) < 5" by code_simp
  have na: "negaAB (\<lambda>b. 0) 2 (reset 2) (- 1) 1 None
      = Inr ((0, Some 4), (reset 2)\<lparr>best_move := Some 7, best_move_score := 0\<rparr>)"
    by code_simp
  from searches_restore_board [OF so, of "\<lambda>b. 0" 5 "reset 2" "- 1" 1 1 2 None] wf bw len na
  show ?thesis by blast
qed

lemma py_range_eq_ap: "py_range a e step = ap a step (nat ((e - a + step - 1) div step))"
  by (simp add: py_range_def ap_def)

lemma py_range_mult: 
  assumes "0 < step"
  shows "py_range a (a + m * step) step = ap a step (nat m)"
proof -
  have "(step - 1 + m * step) div step = m + (step - 1) div step"
    using assms div_mult_self1 [of step "step - 1" m] by simp
  moreover have "(step - 1) div step = 0"
    using assms by simp
  ultimately have "(a + m * step - a + step - 1) div step = m"
    by (simp add: algebra_simps)
  then show ?thesis by (simp add: py_range_eq_ap)
qed

lemma ap_length [simp]: "length (ap a step m) = m"
  by (simp add: ap_def)

lemma ap_nth [simp]: "i < m \<Longrightarrow> ap a step m ! i = a + int i * step"
  by (simp add: ap_def)

lemma ap_set: "set (ap a step m) = {a + int i * step |i. i < m}"
  by (auto simp: ap_def)

lemma horizontal_lines_eq:
  assumes "1 \<le> n"
  shows "horizontal_lines n = map (\<lambda>k. ap (rc n (int k + 1) 1) 1 (nat n)) [0..<nat n]"
proof -
  have "(n * n + n + 1) div (n + 1) = n"
  proof -
    have "n * n + n + 1 = 1 + n * (n + 1)" by (simp add: algebra_simps)
    then have "(n * n + n + 1) div (n + 1) = (1 + n * (n + 1)) div (n + 1)" by (simp only:)
    also have "\<dots> = n + 1 div (n + 1)"
      using assms div_mult_self1 [of "n + 1" 1 n] by simp
    also have "(1::int) div (n + 1) = 0" using assms by simp
    finally show ?thesis by simp
  qed
  then have outer: "py_range (n + 2) (n + 2 + n * n + 1) (n + 1) = ap (n + 2) (n + 1) (nat n)"
    by (simp add: py_range_eq_ap algebra_simps)
  have inner: "py_range a (a + n) 1 = ap a 1 (nat n)" for a
    by (simp add: py_range_eq_ap)
  show ?thesis
    unfolding horizontal_lines_def outer inner
    by (simp add: ap_def rc_def algebra_simps)
qed

lemma vertical_lines_eq:
  assumes "1 \<le> n"
  shows "vertical_lines n = map (\<lambda>k. ap (rc n 1 (int k + 1)) (n + 1) (nat n)) [0..<nat n]"
proof -
  have outer: "py_range (n + 2) (n + 2 + n) 1 = ap (n + 2) 1 (nat n)"
    by (simp add: py_range_eq_ap)
  have "a + (n + 1) * (n - 1) + 1 = a + (n - 1) * (n + 1) + 1" for a :: int by simp
  have inner: "py_range a (a + (n + 1) * (n - 1) + 1) (n + 1) = ap a (n + 1) (nat n)" for a
  proof -
    have "a + (n + 1) * (n - 1) + 1 - a + (n + 1) - 1 = n * (n + 1)"
      by (simp add: algebra_simps)
    moreover have "(n * (n + 1)) div (n + 1) = n" using assms by simp
    ultimately show ?thesis by (simp add: py_range_eq_ap)
  qed
  show ?thesis
    unfolding vertical_lines_def outer inner
    by (simp add: ap_def rc_def algebra_simps)
qed

lemma ex_shift: "(\<exists>i<m. P (int i + 1)) \<longleftrightarrow> (\<exists>k. 1 \<le> k \<and> k \<le> int m \<and> P k)"
proof
  assume "\<exists>i<m. P (int i + 1)"
  then obtain i where "i < m" "P (int i + 1)" by blast
  then have "1 \<le> int i + 1 \<and> int i + 1 \<le> int m \<and> P (int i + 1)" by simp
  then show "\<exists>k. 1 \<le> k \<and> k \<le> int m \<and> P k" by blast
next
  assume "\<exists>k. 1 \<le> k \<and> k \<le> int m \<and> P k"
  then obtain k where k: "1 \<le> k" "k \<le> int m" "P k" by blast
  define i where "i = nat (k - 1)"
  have "int i + 1 = k" using k(1) by (simp add: i_def)
  moreover have "i < m" using k by (simp add: i_def)
  ultimately have "i < m \<and> P (int i + 1)" using k(3) by simp
  then show "\<exists>i<m. P (int i + 1)" by blast
qed

lemma ex_Suc_shift: "(\<exists>i < Suc m. P i) \<longleftrightarrow> P 0 \<or> (\<exists>i < m. P (Suc i))"
proof
  assume "\<exists>i < Suc m. P i"
  then obtain i where i: "i < Suc m" "P i" by blast
  show "P 0 \<or> (\<exists>i < m. P (Suc i))"
  proof (cases i)
    case 0
    with i show ?thesis by simp
  next
    case (Suc j)
    with i have "j < m \<and> P (Suc j)" by simp
    then show ?thesis by blast
  qed
next
  assume "P 0 \<or> (\<exists>i < m. P (Suc i))"
  then show "\<exists>i < Suc m. P i" by auto
qed

lemma diag_lines_starts:
  assumes "0 < step"
  shows "line \<in> set (diag_lines step (diag_starts m f s d1 d2) dS False) \<longleftrightarrow>
     (\<exists>i < m. line = ap (f + int i * d1) step (nat (dS - int i)) \<or>
             line = ap (s + int i * d2) step (nat (dS - int i)))"
proof (induction m arbitrary: f s dS)
  case 0
  then show ?case by simp
next
  case (Suc m)
  have e: "f + d1 + int i * d1 = f + int (Suc i) * d1" "s + d2 + int i * d2 = s + int (Suc i) * d2"
        "dS - 1 - int i = dS - int (Suc i)" for i by (simp_all add: algebra_simps)
  have "line \<in> set (diag_lines step (diag_starts (Suc m) f s d1 d2) dS False) \<longleftrightarrow>
      (line = ap f step (nat dS) \<or> line = ap s step (nat dS)) \<or>
      line \<in> set (diag_lines step (diag_starts m (f + d1) (s + d2) d1 d2) (dS - 1) False)"
    using assms by (auto simp: py_range_mult)
  also have "\<dots> \<longleftrightarrow> (line = ap f step (nat dS) \<or> line = ap s step (nat dS)) \<or>
      (\<exists>i < m. line = ap (f + int (Suc i) * d1) step (nat (dS - int (Suc i))) \<or>
             line = ap (s + int (Suc i) * d2) step (nat (dS - int (Suc i))))"
    unfolding Suc.IH e ..
  also have "\<dots> \<longleftrightarrow> (\<exists>i < Suc m. line = ap (f + int i * d1) step (nat (dS - int i)) \<or>
             line = ap (s + int i * d2) step (nat (dS - int i)))"
    by (subst ex_Suc_shift) simp
  finally show ?case .
qed

lemma diag_lines_starts_int:
  assumes "0 < step"
  shows "line \<in> set (diag_lines step (diag_starts m f s d1 d2) dS False) \<longleftrightarrow>
     (\<exists>k. 1 \<le> k \<and> k \<le> int m \<and> (line = ap (f + (k - 1) * d1) step (nat (dS + 1 - k)) \<or>
             line = ap (s + (k - 1) * d2) step (nat (dS + 1 - k))))"
proof -
  define P where "P k \<longleftrightarrow> line = ap (f + (k - 1) * d1) step (nat (dS + 1 - k)) \<or>
             line = ap (s + (k - 1) * d2) step (nat (dS + 1 - k))" for k
  have "(line = ap (f + int i * d1) step (nat (dS - int i)) \<or>
             line = ap (s + int i * d2) step (nat (dS - int i))) = P (int i + 1)" for i
    by (simp add: P_def)
  then have "line \<in> set (diag_lines step (diag_starts m f s d1 d2) dS False) \<longleftrightarrow>
     (\<exists>i < m. P (int i + 1))"
    using diag_lines_starts [OF assms] by simp
  also have "\<dots> \<longleftrightarrow> (\<exists>k. 1 \<le> k \<and> k \<le> int m \<and> P k)" by (rule ex_shift)
  finally show ?thesis unfolding P_def .
qed

lemma diagonal_I_lines_iff:
  assumes "1 \<le> n"
  shows "line \<in> set (diagonal_I_lines n) \<longleftrightarrow>
     line = ap (rc n 1 1) (n + 2) (nat n) \<or>
     (\<exists>k. 1 \<le> k \<and> k \<le> n - 5 \<and>
        (line = ap (rc n (1 + k) 1) (n + 2) (nat (n - k)) \<or>
         line = ap (rc n 1 (1 + k)) (n + 2) (nat (n - k))))"
proof -
  have step: "0 < n + 2" using assms by simp
  have e: "n + 2 = rc n 1 1" "n + 2 + n + 1 + (k - 1) * (n + 1) = rc n (1 + k) 1"
     "n + 2 + 1 + (k - 1) * 1 = rc n 1 (1 + k)" "n - 1 + 1 - k = n - k" for k
    by (simp_all add: rc_def algebra_simps)
  have b: "(1 \<le> k \<and> k \<le> int (nat (n - 5)) \<and> Q) = (1 \<le> k \<and> k \<le> n - 5 \<and> Q)" for k Q
    by auto
  have "diagonal_I_lines n = ap (n + 2) (n + 2) (nat n) #
      diag_lines (n + 2) (diag_starts (nat (n - 5)) (n + 2 + n + 1) (n + 2 + 1) (n + 1) 1) (n - 1) False"
    unfolding diagonal_I_lines_def Let_def
    using step by (simp add: py_range_mult)
  then have "line \<in> set (diagonal_I_lines n) \<longleftrightarrow> line = ap (n + 2) (n + 2) (nat n) \<or>
     line \<in> set (diag_lines (n + 2) (diag_starts (nat (n - 5)) (n + 2 + n + 1) (n + 2 + 1) (n + 1) 1) (n - 1) False)"
    by simp
  also have "\<dots> \<longleftrightarrow> line = ap (rc n 1 1) (n + 2) (nat n) \<or>
     (\<exists>k. 1 \<le> k \<and> k \<le> n - 5 \<and>
        (line = ap (rc n (1 + k) 1) (n + 2) (nat (n - k)) \<or>
         line = ap (rc n 1 (1 + k)) (n + 2) (nat (n - k))))"
    unfolding diag_lines_starts_int [OF step] b rc_def
    by (simp add: algebra_simps)
  finally show ?thesis .
qed

lemma diagonal_II_lines_iff:
  assumes "1 \<le> n"
  shows "line \<in> set (diagonal_II_lines n) \<longleftrightarrow>
     line = ap (rc n 1 n) n (nat n) \<or>
     (\<exists>k. 1 \<le> k \<and> k \<le> n - 5 \<and>
        (line = ap (rc n 1 (n - k)) n (nat (n - k)) \<or>
         line = ap (rc n (1 + k) n) n (nat (n - k))))"
proof -
  have step: "0 < n" using assms by simp
  have e: "n + 2 + n - 1 = rc n 1 n" "n + 2 + n - 1 - 1 + (k - 1) * (- 1) = rc n 1 (n - k)"
     "n + 2 + n - 1 + (n + 1) + (k - 1) * (n + 1) = rc n (1 + k) n" "n - 1 + 1 - k = n - k" for k
    by (simp_all add: rc_def algebra_simps)
  have b: "(1 \<le> k \<and> k \<le> int (nat (n - 5)) \<and> Q) = (1 \<le> k \<and> k \<le> n - 5 \<and> Q)" for k Q
    by auto
  have "diagonal_II_lines n = ap (n + 2 + n - 1) n (nat n) #
      diag_lines n (diag_starts (nat (n - 5)) (n + 2 + n - 1 - 1) (n + 2 + n - 1 + (n + 1)) (- 1) (n + 1)) (n - 1) False"
    unfolding diagonal_II_lines_def Let_def
    using step by (simp add: py_range_mult)
  then have "line \<in> set (diagonal_II_lines n) \<longleftrightarrow> line = ap (n + 2 + n - 1) n (nat n) \<or>
     line \<in> set (diag_lines n (diag_starts (nat (n - 5)) (n + 2 + n - 1 - 1) (n + 2 + n - 1 + (n + 1)) (- 1) (n + 1)) (n - 1) False)"
    by simp
  also have "\<dots> \<longleftrightarrow> line = ap (rc n 1 n) n (nat n) \<or>
     (\<exists>k. 1 \<le> k \<and> k \<le> n - 5 \<and>
        (line = ap (rc n 1 (n - k)) n (nat (n - k)) \<or>
         line = ap (rc n (1 + k) n) n (nat (n - k))))"
    unfolding diag_lines_starts_int [OF step] b rc_def
    by (simp add: algebra_simps)
  finally show ?thesis .
qed

lemma rc_add: "rc n r c + j * (dr * (n + 1) + dc) = rc n (r + j * dr) (c + j * dc)"
  by (simp add: rc_def algebra_simps)

lemma rc_mod: "0 \<le> n \<Longrightarrow> rc n r c mod (n + 1) = c mod (n + 1)"
  by (simp add: rc_def)

lemma on_board_rcI:
  assumes "1 \<le> r" "r \<le> n" "1 \<le> c" "c \<le> n"
  shows "on_board n (rc n r c)"
proof -
  let ?N = "n + 1"
  have N: "0 < ?N" using assms by simp
  have "1 * ?N \<le> r * ?N" using assms(1) N by (intro mult_right_mono) simp_all
  then have lo: "?N < rc n r c" using assms(3) by (simp add: rc_def)
  have "r * ?N \<le> n * ?N" using assms(2) N by (intro mult_right_mono) simp_all
  then have "rc n r c \<le> n * ?N + n" using assms(4) by (simp add: rc_def)
  also have "\<dots> < ?N * ?N" by (simp add: algebra_simps)
  finally have hi: "rc n r c < ?N * ?N" .
  have "rc n r c mod ?N = c mod ?N" using N by (simp add: rc_def)
  also have "\<dots> = c" using assms by simp
  finally have "rc n r c mod ?N \<noteq> 0" using assms(3) by simp
  with lo hi show ?thesis by (simp add: on_board_def)
qed

lemma on_board_rcE:
  assumes n: "0 \<le> n" and ob: "on_board n i"
  obtains r c where "1 \<le> r" "r \<le> n" "1 \<le> c" "c \<le> n" "i = rc n r c"
proof -
  let ?N = "n + 1"
  define r where "r = i div ?N"
  define c where "c = i mod ?N"
  have N: "0 < ?N" using n by simp
  have i: "i = r * ?N + c" unfolding r_def c_def by (rule div_mult_mod_eq [symmetric])
  have c0: "0 \<le> c" "c < ?N"
    unfolding c_def using N by (rule pos_mod_sign, rule pos_mod_bound)
  from ob have lo: "?N < i" and hi: "i < ?N * ?N" and cn: "c \<noteq> 0"
    by (simp_all add: on_board_def c_def)
  have r1: "1 \<le> r"
  proof (rule ccontr)
    assume "\<not> 1 \<le> r"
    then have "r \<le> 0" by simp
    then have "r * ?N \<le> 0" using N by (simp add: mult_le_0_iff)
    with i c0 lo show False by simp
  qed
  have rn: "r \<le> n"
  proof (rule ccontr)
    assume "\<not> r \<le> n"
    then have "?N \<le> r" by simp
    then have "?N * ?N \<le> r * ?N" using N by (intro mult_right_mono) simp_all
    with i c0 hi show False by simp
  qed
  from c0 cn have "1 \<le> c" "c \<le> n" by simp_all
  with r1 rn i show ?thesis by (intro that [of r c]) (simp_all add: rc_def)
qed

lemma rc_col_zero: "0 \<le> n \<Longrightarrow> \<not> on_board n (rc n r 0)"
  by (simp add: on_board_def rc_def)

lemma rc_col_last: "0 \<le> n \<Longrightarrow> \<not> on_board n (rc n r (n + 1))"
proof -
  assume n: "0 \<le> n"
  have "rc n r (n + 1) = (r + 1) * (n + 1)" by (simp add: rc_def algebra_simps)
  then have "rc n r (n + 1) mod (n + 1) = 0" by simp
  then show ?thesis by (simp add: on_board_def)
qed

lemma rc_row_bound:
  assumes n: "0 \<le> n" and ob: "on_board n (rc n r c)" and c: "0 \<le> c"
  shows "r \<le> n"
proof (rule ccontr)
  assume "\<not> r \<le> n"
  then have "n + 1 \<le> r" by simp
  then have "(n + 1) * (n + 1) \<le> r * (n + 1)" using n by (intro mult_right_mono) simp_all
  with c have "(n + 1) * (n + 1) \<le> rc n r c" by (simp add: rc_def)
  with ob show False by (simp add: on_board_def)
qed

lemma on_board_range:
  assumes n: "0 \<le> n" and ob: "on_board n i"
  shows "0 \<le> i \<and> i < n * n + 3 * (n + 1)"
proof -
  from ob have "n + 1 < i" "i < (n + 1) * (n + 1)" by (simp_all add: on_board_def)
  moreover have "(n + 1) * (n + 1) \<le> n * n + 3 * (n + 1)" using n by (simp add: algebra_simps)
  ultimately show ?thesis using n by simp
qed

text \<open>A window of cells on the board, in one of the four directions.\<close>

lemma window_bounds:
  assumes n: "0 \<le> n" and L: "1 \<le> L"
    and r: "1 \<le> r" "r \<le> n" and c: "1 \<le> c" "c \<le> n"
    and dr: "dr = 0 \<or> dr = 1" and dc: "dc = 1 \<or> dc = - 1 \<or> (dc = 0 \<and> dr = 1)"
    and win: "\<forall>j. 0 \<le> j \<and> j < L \<longrightarrow> on_board n (rc n r c + j * (dr * (n + 1) + dc))"
  shows "1 \<le> c + (L - 1) * dc \<and> c + (L - 1) * dc \<le> n \<and> r + (L - 1) * dr \<le> n"
proof -
  have cell: "on_board n (rc n (r + j * dr) (c + j * dc))" if "0 \<le> j" "j < L" for j
    using win that by (simp add: rc_add)
  have col: "1 \<le> c + (L - 1) * dc \<and> c + (L - 1) * dc \<le> n"
  proof -
    consider "dc = 1" | "dc = - 1" | "dc = 0" using dc by blast
    then show ?thesis
    proof cases
      case 1
      have "c + (L - 1) \<le> n"
      proof (rule ccontr)
        assume "\<not> c + (L - 1) \<le> n"
        then have j: "0 \<le> n + 1 - c" "n + 1 - c < L" using c by simp_all
        from cell [OF j] 1 have "on_board n (rc n (r + (n + 1 - c) * dr) (n + 1))" by simp
        with rc_col_last [OF n] show False by blast
      qed
      with 1 c L show ?thesis by simp
    next
      case 2
      have "1 \<le> c - (L - 1)"
      proof (rule ccontr)
        assume "\<not> 1 \<le> c - (L - 1)"
        then have j: "0 \<le> c" "c < L" using c by simp_all
        from cell [OF j] 2 have "on_board n (rc n (r + c * dr) 0)" by simp
        with rc_col_zero [OF n] show False by blast
      qed
      with 2 c L show ?thesis by simp
    next
      case 3
      with c show ?thesis by simp
    qed
  qed
  have "on_board n (rc n (r + (L - 1) * dr) (c + (L - 1) * dc))"
    using cell [of "L - 1"] L by simp
  from rc_row_bound [OF n this] col have "r + (L - 1) * dr \<le> n" by simp
  with col show ?thesis by simp
qed

lemma horizontal_covered:
  assumes n: "0 \<le> n" and L: "1 \<le> L"
    and win: "\<forall>j. 0 \<le> j \<and> j < L \<longrightarrow> on_board n (q + j * 1)"
  shows "\<exists>a m i. ap a 1 m \<in> set (horizontal_lines n) \<and> int i + L \<le> int m \<and> q = a + int i * 1"
proof -
  from win L have "on_board n (q + 0 * 1)" by (intro win [rule_format]) simp
  then have "on_board n q" by simp
  from on_board_rcE [OF n this] obtain r c
    where rc: "1 \<le> r" "r \<le> n" "1 \<le> c" "c \<le> n" "q = rc n r c" by blast
  have "\<forall>j. 0 \<le> j \<and> j < L \<longrightarrow> on_board n (rc n r c + j * (0 * (n + 1) + 1))"
    using win rc(5) by simp
  from window_bounds [OF n L rc(1-4) _ _ this, of ] have b: "c + (L - 1) \<le> n" by simp
  have n1: "1 \<le> n" using rc by simp
  define k where "k = nat (r - 1)"
  have k: "k < nat n" "int k + 1 = r" using rc by (simp_all add: k_def)
  then have "ap (rc n r 1) 1 (nat n) \<in> set (horizontal_lines n)"
    unfolding horizontal_lines_eq [OF n1] by (auto intro!: image_eqI [where x = k])
  moreover have "int (nat (c - 1)) + L \<le> int (nat n)" using b rc by simp
  moreover have "q = rc n r 1 + int (nat (c - 1)) * 1" using rc by (simp add: rc_def)
  ultimately show ?thesis by blast
qed

lemma vertical_covered:
  assumes n: "0 \<le> n" and L: "1 \<le> L"
    and win: "\<forall>j. 0 \<le> j \<and> j < L \<longrightarrow> on_board n (q + j * (n + 1))"
  shows "\<exists>a m i. ap a (n + 1) m \<in> set (vertical_lines n) \<and> int i + L \<le> int m \<and>
           q = a + int i * (n + 1)"
proof -
  from win L have "on_board n (q + 0 * (n + 1))" by (intro win [rule_format]) simp
  then have "on_board n q" by simp
  from on_board_rcE [OF n this] obtain r c
    where rc: "1 \<le> r" "r \<le> n" "1 \<le> c" "c \<le> n" "q = rc n r c" by blast
  have "\<forall>j. 0 \<le> j \<and> j < L \<longrightarrow> on_board n (rc n r c + j * (1 * (n + 1) + 0))"
    using win rc(5) by simp
  from window_bounds [OF n L rc(1-4) _ _ this] have b: "r + (L - 1) \<le> n" by simp
  have n1: "1 \<le> n" using rc by simp
  define k where "k = nat (c - 1)"
  have k: "k < nat n" "int k + 1 = c" using rc by (simp_all add: k_def)
  then have "ap (rc n 1 c) (n + 1) (nat n) \<in> set (vertical_lines n)"
    unfolding vertical_lines_eq [OF n1] by (auto intro!: image_eqI [where x = k])
  moreover have "int (nat (r - 1)) + L \<le> int (nat n)" using b rc by simp
  moreover have "q = rc n 1 c + int (nat (r - 1)) * (n + 1)"
    using rc by (simp add: rc_def algebra_simps)
  ultimately show ?thesis by blast
qed

lemma diagonal_I_covered:
  assumes n: "0 \<le> n" and L: "5 \<le> L"
    and win: "\<forall>j. 0 \<le> j \<and> j < L \<longrightarrow> on_board n (q + j * (n + 2))"
  shows "\<exists>a m i. ap a (n + 2) m \<in> set (diagonal_I_lines n) \<and> int i + L \<le> int m \<and>
           q = a + int i * (n + 2)"
proof -
  from win L have "on_board n (q + 0 * (n + 2))" by (intro win [rule_format]) simp
  then have "on_board n q" by simp
  from on_board_rcE [OF n this] obtain r c
    where rc: "1 \<le> r" "r \<le> n" "1 \<le> c" "c \<le> n" "q = rc n r c" by blast
  have "\<forall>j. 0 \<le> j \<and> j < L \<longrightarrow> on_board n (rc n r c + j * (1 * (n + 1) + 1))"
    using win rc(5) by (simp add: add.commute)
  moreover have "1 \<le> L" using L by simp
  ultimately have b: "c + (L - 1) \<le> n" "r + (L - 1) \<le> n"
    using window_bounds [OF n _ rc(1-4), of L 1 1] by simp_all
  have n1: "1 \<le> n" using rc by simp
  consider "r = c" | "c < r" | "r < c" by linarith
  then show ?thesis
  proof cases
    case 1
    have "ap (rc n 1 1) (n + 2) (nat n) \<in> set (diagonal_I_lines n)"
      unfolding diagonal_I_lines_iff [OF n1] by simp
    moreover have "int (nat (c - 1)) + L \<le> int (nat n)" using b rc by simp
    moreover have "q = rc n 1 1 + int (nat (c - 1)) * (n + 2)"
      using rc 1 by (simp add: rc_def algebra_simps)
    ultimately show ?thesis by blast
  next
    case 2
    define k where "k = r - c"
    have k: "1 \<le> k" "k \<le> n - 5" using 2 b rc L by (simp_all add: k_def)
    then have "ap (rc n (1 + k) 1) (n + 2) (nat (n - k)) \<in> set (diagonal_I_lines n)"
      unfolding diagonal_I_lines_iff [OF n1] by blast
    moreover have "int (nat (c - 1)) + L \<le> int (nat (n - k))" using b rc by (simp add: k_def)
    moreover have "q = rc n (1 + k) 1 + int (nat (c - 1)) * (n + 2)"
      using rc by (simp add: rc_def k_def algebra_simps)
    ultimately show ?thesis by blast
  next
    case 3
    define k where "k = c - r"
    have k: "1 \<le> k" "k \<le> n - 5" using 3 b rc L by (simp_all add: k_def)
    then have "ap (rc n 1 (1 + k)) (n + 2) (nat (n - k)) \<in> set (diagonal_I_lines n)"
      unfolding diagonal_I_lines_iff [OF n1] by blast
    moreover have "int (nat (r - 1)) + L \<le> int (nat (n - k))" using b rc by (simp add: k_def)
    moreover have "q = rc n 1 (1 + k) + int (nat (r - 1)) * (n + 2)"
      using rc by (simp add: rc_def k_def algebra_simps)
    ultimately show ?thesis by blast
  qed
qed

lemma diagonal_II_covered:
  assumes n: "0 \<le> n" and L: "5 \<le> L"
    and win: "\<forall>j. 0 \<le> j \<and> j < L \<longrightarrow> on_board n (q + j * n)"
  shows "\<exists>a m i. ap a n m \<in> set (diagonal_II_lines n) \<and> int i + L \<le> int m \<and>
           q = a + int i * n"
proof -
  from win L have "on_board n (q + 0 * n)" by (intro win [rule_format]) simp
  then have "on_board n q" by simp
  from on_board_rcE [OF n this] obtain r c
    where rc: "1 \<le> r" "r \<le> n" "1 \<le> c" "c \<le> n" "q = rc n r c" by blast
  have "\<forall>j. 0 \<le> j \<and> j < L \<longrightarrow> on_board n (rc n r c + j * (1 * (n + 1) + - 1))"
    using win rc(5) by simp
  moreover have "1 \<le> L" using L by simp
  ultimately have b: "1 \<le> c - (L - 1)" "r + (L - 1) \<le> n"
    using window_bounds [OF n _ rc(1-4), of L 1 "- 1"] by simp_all
  have n1: "1 \<le> n" using rc by simp
  consider "r + c = n + 1" | "r + c < n + 1" | "n + 1 < r + c" by linarith
  then show ?thesis
  proof cases
    case 1
    have "ap (rc n 1 n) n (nat n) \<in> set (diagonal_II_lines n)"
      unfolding diagonal_II_lines_iff [OF n1] by simp
    moreover have "int (nat (r - 1)) + L \<le> int (nat n)" using b rc by simp
    moreover have "c = n + 1 - r" using 1 by simp
    then have "q = rc n 1 n + int (nat (r - 1)) * n"
      using rc by (simp add: rc_def algebra_simps)
    ultimately show ?thesis by blast
  next
    case 2
    define k where "k = n + 1 - r - c"
    have k: "1 \<le> k" "k \<le> n - 5" using 2 b rc L by (simp_all add: k_def)
    then have "ap (rc n 1 (n - k)) n (nat (n - k)) \<in> set (diagonal_II_lines n)"
      unfolding diagonal_II_lines_iff [OF n1] by blast
    moreover have "int (nat (r - 1)) + L \<le> int (nat (n - k))" using b rc by (simp add: k_def)
    moreover have "q = rc n 1 (n - k) + int (nat (r - 1)) * n"
      using rc by (simp add: rc_def k_def algebra_simps)
    ultimately show ?thesis by blast
  next
    case 3
    define k where "k = r + c - n - 1"
    have k: "1 \<le> k" "k \<le> n - 5" using 3 b rc L by (simp_all add: k_def)
    then have "ap (rc n (1 + k) n) n (nat (n - k)) \<in> set (diagonal_II_lines n)"
      unfolding diagonal_II_lines_iff [OF n1] by blast
    moreover have "int (nat (n - c)) + L \<le> int (nat (n - k))" using b rc by (simp add: k_def)
    moreover have "q = rc n (1 + k) n + int (nat (n - c)) * n"
      using rc by (simp add: rc_def k_def algebra_simps)
    ultimately show ?thesis by blast
  qed
qed

text \<open>Every point of a scanned line is on the board.\<close>

lemma ap_on_board:
  assumes n: "0 \<le> n"
    and dr: "dr = 0 \<or> dr = 1" and dc: "dc = 1 \<or> dc = - 1 \<or> dc = 0"
    and r0: "1 \<le> r0" and c0: "1 \<le> c0" "c0 \<le> n"
    and last: "r0 + (int m - 1) * dr \<le> n" "1 \<le> c0 + (int m - 1) * dc" "c0 + (int m - 1) * dc \<le> n"
    and p: "p \<in> set (ap (rc n r0 c0) (dr * (n + 1) + dc) m)"
  shows "on_board n p"
proof -
  from p obtain i where i: "i < m" "p = rc n r0 c0 + int i * (dr * (n + 1) + dc)"
    by (auto simp: ap_set)
  have p': "p = rc n (r0 + int i * dr) (c0 + int i * dc)" unfolding i(2) by (rule rc_add)
  have i': "0 \<le> int i" "int i \<le> int m - 1" using i(1) by simp_all
  have r: "1 \<le> r0 + int i * dr" "r0 + int i * dr \<le> n"
    using dr r0 last(1) i' by auto
  have c: "1 \<le> c0 + int i * dc" "c0 + int i * dc \<le> n"
    using dc c0 last(2,3) i' by auto
  show ?thesis unfolding p' by (rule on_board_rcI [OF r c])
qed

lemma horizontal_on_board:
  assumes n: "1 \<le> n" and l: "line \<in> set (horizontal_lines n)" and p: "p \<in> set line"
  shows "on_board n p"
proof -
  from l obtain k where k: "k < nat n" "line = ap (rc n (int k + 1) 1) 1 (nat n)"
    unfolding horizontal_lines_eq [OF n] by auto
  have "p \<in> set (ap (rc n (int k + 1) 1) (0 * (n + 1) + 1) (nat n))" using p k by simp
  then show ?thesis using n k(1) by (intro ap_on_board [where dr = 0 and dc = 1 and m = "nat n"
        and ?r0.0 = "int k + 1" and ?c0.0 = 1]) simp_all
qed

lemma vertical_on_board:
  assumes n: "1 \<le> n" and l: "line \<in> set (vertical_lines n)" and p: "p \<in> set line"
  shows "on_board n p"
proof -
  from l obtain k where k: "k < nat n" "line = ap (rc n 1 (int k + 1)) (n + 1) (nat n)"
    unfolding vertical_lines_eq [OF n] by auto
  have "p \<in> set (ap (rc n 1 (int k + 1)) (1 * (n + 1) + 0) (nat n))" using p k by simp
  then show ?thesis using n k(1) by (intro ap_on_board [where dr = 1 and dc = 0 and m = "nat n"
        and ?r0.0 = 1 and ?c0.0 = "int k + 1"]) simp_all
qed

lemma diagonal_I_on_board:
  assumes n: "1 \<le> n" and l: "line \<in> set (diagonal_I_lines n)" and p: "p \<in> set line"
  shows "on_board n p"
proof -
  have s: "n + 2 = 1 * (n + 1) + 1" by simp
  from l consider "line = ap (rc n 1 1) (n + 2) (nat n)"
    | k where "1 \<le> k" "k \<le> n - 5" "line = ap (rc n (1 + k) 1) (n + 2) (nat (n - k))"
    | k where "1 \<le> k" "k \<le> n - 5" "line = ap (rc n 1 (1 + k)) (n + 2) (nat (n - k))"
    unfolding diagonal_I_lines_iff [OF n] by blast
  then show ?thesis
  proof cases
    case 1
    with p have "p \<in> set (ap (rc n 1 1) (1 * (n + 1) + 1) (nat n))" by (simp add: add.commute)
    then show ?thesis using n by (intro ap_on_board [where dr = 1 and dc = 1 and m = "nat n"
        and ?r0.0 = 1 and ?c0.0 = 1]) simp_all
  next
    case 2
    with p have "p \<in> set (ap (rc n (1 + k) 1) (1 * (n + 1) + 1) (nat (n - k)))"
      by (simp add: add.commute)
    then show ?thesis using n 2(1,2) by (intro ap_on_board [where dr = 1 and dc = 1
        and m = "nat (n - k)" and ?r0.0 = "1 + k" and ?c0.0 = 1]) simp_all
  next
    case 3
    with p have "p \<in> set (ap (rc n 1 (1 + k)) (1 * (n + 1) + 1) (nat (n - k)))"
      by (simp add: add.commute)
    then show ?thesis using n 3(1,2) by (intro ap_on_board [where dr = 1 and dc = 1
        and m = "nat (n - k)" and ?r0.0 = 1 and ?c0.0 = "1 + k"]) simp_all
  qed
qed

lemma diagonal_II_on_board:
  assumes n: "1 \<le> n" and l: "line \<in> set (diagonal_II_lines n)" and p: "p \<in> set line"
  shows "on_board n p"
proof -
  from l consider "line = ap (rc n 1 n) n (nat n)"
    | k where "1 \<le> k" "k \<le> n - 5" "line = ap (rc n 1 (n - k)) n (nat (n - k))"
    | k where "1 \<le> k" "k \<le> n - 5" "line = ap (rc n (1 + k) n) n (nat (n - k))"
    unfolding diagonal_II_lines_iff [OF n] by blast
  then show ?thesis
  proof cases
    case 1
    with p have "p \<in> set (ap (rc n 1 n) (1 * (n + 1) + - 1) (nat n))" by simp
    then show ?thesis using n by (intro ap_on_board [where dr = 1 and dc = "- 1" and m = "nat n"
        and ?r0.0 = 1 and ?c0.0 = n]) simp_all
  next
    case 2
    with p have "p \<in> set (ap (rc n 1 (n - k)) (1 * (n + 1) + - 1) (nat (n - k)))" by simp
    then show ?thesis using n 2(1,2) by (intro ap_on_board [where dr = 1 and dc = "- 1"
        and m = "nat (n - k)" and ?r0.0 = 1 and ?c0.0 = "n - k"]) simp_all
  next
    case 3
    with p have "p \<in> set (ap (rc n (1 + k) n) (1 * (n + 1) + - 1) (nat (n - k)))" by simp
    then show ?thesis using n 3(1,2) by (intro ap_on_board [where dr = 1 and dc = "- 1"
        and m = "nat (n - k)" and ?r0.0 = "1 + k" and ?c0.0 = n]) simp_all
  qed
qed

lemma length_window [simp]: "length (window b q step L) = L"
  by (simp add: window_def)

lemma window_Suc:
  "window b q step (Suc L) = window b q step L @ [point_rep b (q + int L * step)]"
  by (simp add: window_def)

lemma window_tl: "tl (window b q step (Suc L)) = window b (q + step) step L"
proof -
  have up: "[0..<Suc L] = 0 # map Suc [0..<L]"
    by (simp add: upt_conv_Cons map_Suc_upt del: upt_Suc)
  show ?thesis
    unfolding window_def up by (simp add: comp_def algebra_simps del: upt_Suc)
qed

lemma getPointRep_point_rep:
  assumes "0 \<le> p" "p < int (length (board b))"
  shows "getPointRep b (current_player b) p = Inr (point_rep b p)"
  using assms by (simp add: getPointRep_def np_get_def np_index_def point_rep_def Let_def)

lemma checkWin_cases:
  "checkWin winDict s l1 l2 pt step =
     (case map_of winDict s of
        None \<Rightarrow> (False, l1, l2)
      | Some True \<Rightarrow> (True, l1 @ [pt + (str_index s CHR ''.'' - 4) * step], l2)
      | Some False \<Rightarrow> (False, l1, l2 @ [pt + (str_index s CHR ''.'' - 4) * step]))"
  by (simp add: checkWin_def Let_def split: option.splits bool.splits)

lemma scan_point_sem:
  assumes rd: "0 \<le> pt" "pt < int (length (board b))"
    and inv: "w = window b (pt - int (length w) * step) step (length w)"
    and len: "length w \<le> 5"
  shows "case scan_point b step pt (w, l1, l2, l3, l4) of
           Inl e \<Rightarrow> False
         | Inr (Return r) \<Rightarrow>
             4 \<le> length w \<and> (\<exists>p. r = (l1 @ [p], [], [], []) \<and> p \<in> win_at b step pt True)
         | Inr (Next (w', l1', l2', l3', l4')) \<Rightarrow>
             w' = window b (pt + step - int (length w') * step) step (length w') \<and>
             length w' = min (length w + 1) 5 \<and> l1' = l1 \<and>
             (4 \<le> length w \<longrightarrow> win_at b step pt True = {}) \<and>
             set l2' = set l2 \<union> (if 4 \<le> length w then win_at b step pt False else {}) \<and>
             set l3' = set l3 \<union> (if 5 \<le> length w then threat_at b step pt True else {}) \<and>
             set l4' = set l4 \<union> (if 5 \<le> length w then threat_at b step pt False else {})"
proof -
  define k where "k = length w"
  let ?ch = "point_rep b pt"
  have gp: "getPointRep b (current_player b) pt = Inr ?ch"
    by (rule getPointRep_point_rep [OF rd])
  have w: "w = window b (pt - int k * step) step k" using inv by (simp add: k_def)
  have w1: "w @ [?ch] = window b (pt - int k * step) step (Suc k)"
    unfolding window_Suc using w by simp
  have lw: "length w = k" by (simp add: k_def)
  consider "k = 5" | "k = 4" | "k < 4" using len k_def by linarith
  then show ?thesis
  proof cases
    case 1
    let ?w6 = "window b (pt - 5 * step) step 6"
    let ?w5 = "window b (pt - 4 * step) step 5"
    have w6: "w @ [?ch] = ?w6" using w1 1 by (simp add: eval_nat_numeral)
    have "tl (window b (pt - 5 * step) step (Suc 5)) = window b (pt - 5 * step + step) step 5"
      by (rule window_tl)
    then have w5: "tl ?w6 = ?w5" by (simp add: eval_nat_numeral)
    obtain l3' l4' where th: "checkThreat threatDict ?w6 l3 l4 pt step = (l3', l4')"
      by (cases "checkThreat threatDict ?w6 l3 l4 pt step")
    have t3: "set l3' = set l3 \<union> threat_at b step pt True"
      and t4: "set l4' = set l4 \<union> threat_at b step pt False"
      using th by (auto simp: checkThreat_def threat_at_def split: option.splits if_splits)
    have sp: "scan_point b step pt (w, l1, l2, l3, l4) =
        (case checkWin winDict ?w5 l1 l2 pt step of
           (won, l1', l2') \<Rightarrow>
             if won then Inr (Return (l1', [], [], []))
             else Inr (Next (?w5, l1', l2', l3', l4')))"
      using gp w6 w5 th lw 1 by (simp add: scan_point_def Let_def split: prod.splits)
    have e: "pt + step - int (length ?w5) * step = pt - 4 * step" by (simp add: algebra_simps)
    show ?thesis
      unfolding sp checkWin_cases lw
      using 1 t3 t4 e
      by (cases "map_of winDict ?w5") (auto simp: win_at_def Let_def split: bool.splits)
  next
    case 2
    let ?w5 = "window b (pt - 4 * step) step 5"
    have w5: "w @ [?ch] = ?w5" using w1 2 by (simp add: eval_nat_numeral)
    have sp: "scan_point b step pt (w, l1, l2, l3, l4) =
        (case checkWin winDict ?w5 l1 l2 pt step of
           (won, l1', l2') \<Rightarrow>
             if won then Inr (Return (l1', [], [], []))
             else Inr (Next (?w5, l1', l2', l3, l4)))"
      using gp w5 lw 2 by (simp add: scan_point_def Let_def split: prod.splits)
    have e: "pt + step - int (length ?w5) * step = pt - 4 * step" by (simp add: algebra_simps)
    show ?thesis
      unfolding sp checkWin_cases lw
      using 2 e
      by (cases "map_of winDict ?w5") (auto simp: win_at_def Let_def split: bool.splits)
  next
    case 3
    let ?w' = "window b (pt - int k * step) step (Suc k)"
    have l: "length (w @ [?ch]) = Suc k" by (simp add: lw)
    have sp: "scan_point b step pt (w, l1, l2, l3, l4) = Inr (Next (?w', l1, l2, l3, l4))"
      using gp 3 l unfolding scan_point_def Let_def w1 [symmetric] by simp
    have e: "pt + step - (1 + int k) * step = pt - int k * step" by (simp add: algebra_simps)
    show ?thesis
      unfolding sp lw using 3 by (simp add: e)
  qed
qed

lemma line_wins_Cons:
  assumes "k \<le> 5"
  shows "line_wins b step (p # ps) k mine =
     (if 4 \<le> k then win_at b step p mine else {}) \<union> line_wins b step ps (min (k + 1) 5) mine"
proof (rule set_eqI)
  fix x
  have "x \<in> line_wins b step (p # ps) k mine \<longleftrightarrow>
      (\<exists>t < Suc (length ps). 4 \<le> t + k \<and> x \<in> win_at b step ((p # ps) ! t) mine)"
    by (simp add: line_wins_def)
  also have "\<dots> \<longleftrightarrow> (4 \<le> k \<and> x \<in> win_at b step p mine) \<or>
      (\<exists>t < length ps. 4 \<le> Suc t + k \<and> x \<in> win_at b step (ps ! t) mine)"
    by (subst ex_Suc_shift) simp
  also have "\<dots> \<longleftrightarrow> (4 \<le> k \<and> x \<in> win_at b step p mine) \<or>
      (\<exists>t < length ps. 4 \<le> t + min (k + 1) 5 \<and> x \<in> win_at b step (ps ! t) mine)"
  proof -
    have "4 \<le> Suc t + k \<longleftrightarrow> 4 \<le> t + min (k + 1) 5" for t using assms by auto
    then show ?thesis by simp
  qed
  finally show "x \<in> line_wins b step (p # ps) k mine \<longleftrightarrow>
     x \<in> (if 4 \<le> k then win_at b step p mine else {}) \<union> line_wins b step ps (min (k + 1) 5) mine"
    by (simp add: line_wins_def)
qed

lemma line_threats_Cons:
  assumes "k \<le> 5"
  shows "line_threats b step (p # ps) k mine =
     (if 5 \<le> k then threat_at b step p mine else {}) \<union> line_threats b step ps (min (k + 1) 5) mine"
proof (rule set_eqI)
  fix x
  have "x \<in> line_threats b step (p # ps) k mine \<longleftrightarrow>
      (\<exists>t < Suc (length ps). 5 \<le> t + k \<and> x \<in> threat_at b step ((p # ps) ! t) mine)"
    by (simp add: line_threats_def)
  also have "\<dots> \<longleftrightarrow> (5 \<le> k \<and> x \<in> threat_at b step p mine) \<or>
      (\<exists>t < length ps. 5 \<le> Suc t + k \<and> x \<in> threat_at b step (ps ! t) mine)"
    by (subst ex_Suc_shift) simp
  also have "\<dots> \<longleftrightarrow> (5 \<le> k \<and> x \<in> threat_at b step p mine) \<or>
      (\<exists>t < length ps. 5 \<le> t + min (k + 1) 5 \<and> x \<in> threat_at b step (ps ! t) mine)"
  proof -
    have "5 \<le> Suc t + k \<longleftrightarrow> 5 \<le> t + min (k + 1) 5" for t using assms by auto
    then show ?thesis by simp
  qed
  finally show "x \<in> line_threats b step (p # ps) k mine \<longleftrightarrow>
     x \<in> (if 5 \<le> k then threat_at b step p mine else {}) \<union>
         line_threats b step ps (min (k + 1) 5) mine"
    by (simp add: line_threats_def)
qed

lemma line_wins_Nil [simp]: "line_wins b step [] k mine = {}"
  by (simp add: line_wins_def)

lemma line_threats_Nil [simp]: "line_threats b step [] k mine = {}"
  by (simp add: line_threats_def)

lemma scan_line_sem:
  assumes "ap_list a step pts"
    and "\<forall>p \<in> set pts. 0 \<le> p \<and> p < int (length (board b))"
    and "w = window b (a - int (length w) * step) step (length w)"
    and "length w \<le> 5"
  shows "case scan_line b step pts (w, l1, l2, l3, l4) of
           Inl e \<Rightarrow> False
         | Inr (Return r) \<Rightarrow>
             \<exists>p. r = (l1 @ [p], [], [], []) \<and> p \<in> line_wins b step pts (length w) True
         | Inr (Next (l1', l2', l3', l4')) \<Rightarrow>
             l1' = l1 \<and> line_wins b step pts (length w) True = {} \<and>
             set l2' = set l2 \<union> line_wins b step pts (length w) False \<and>
             set l3' = set l3 \<union> line_threats b step pts (length w) True \<and>
             set l4' = set l4 \<union> line_threats b step pts (length w) False"
  using assms
proof (induction pts arbitrary: a w l1 l2 l3 l4)
  case Nil
  then show ?case by simp
next
  case (Cons p ps)
  from ap_list_Cons [OF Cons.prems(1)] have p: "p = a" and ap: "ap_list (a + step) step ps"
    by simp_all
  have rd: "0 \<le> a" "a < int (length (board b))" using Cons.prems(2) p by simp_all
  have rest: "\<forall>p \<in> set ps. 0 \<le> p \<and> p < int (length (board b))" using Cons.prems(2) by simp
  note lw = line_wins_Cons [OF Cons.prems(4), of b step a ps]
  note lt = line_threats_Cons [OF Cons.prems(4), of b step a ps]
  from scan_point_sem [OF rd Cons.prems(3,4), of l1 l2 l3 l4]
  have sp: "case scan_point b step a (w, l1, l2, l3, l4) of
           Inl e \<Rightarrow> False
         | Inr (Return r) \<Rightarrow>
             4 \<le> length w \<and> (\<exists>p. r = (l1 @ [p], [], [], []) \<and> p \<in> win_at b step a True)
         | Inr (Next (w', l1', l2', l3', l4')) \<Rightarrow>
             w' = window b (a + step - int (length w') * step) step (length w') \<and>
             length w' = min (length w + 1) 5 \<and> l1' = l1 \<and>
             (4 \<le> length w \<longrightarrow> win_at b step a True = {}) \<and>
             set l2' = set l2 \<union> (if 4 \<le> length w then win_at b step a False else {}) \<and>
             set l3' = set l3 \<union> (if 5 \<le> length w then threat_at b step a True else {}) \<and>
             set l4' = set l4 \<union> (if 5 \<le> length w then threat_at b step a False else {})" .
  show ?case
  proof (cases "scan_point b step a (w, l1, l2, l3, l4)")
    case (Inl e)
    with sp show ?thesis by simp
  next
    case (Inr fl)
    show ?thesis
    proof (cases fl)
      case (Return r)
      with Inr sp have "4 \<le> length w" and "\<exists>p. r = (l1 @ [p], [], [], []) \<and> p \<in> win_at b step a True"
        by simp_all
      then have "\<exists>p. r = (l1 @ [p], [], [], []) \<and> p \<in> line_wins b step (a # ps) (length w) True"
        unfolding lw by auto
      with Inr Return p show ?thesis by simp
    next
      case (Next st)
      obtain w' l1' l2' l3' l4' where st: "st = (w', l1', l2', l3', l4')" by (cases st)
      note all = sp [unfolded Inr Next st sum.case flow.case prod.case]
      note inv = all [THEN conjunct1]
      note len = all [THEN conjunct2, THEN conjunct1]
      note l1 = all [THEN conjunct2, THEN conjunct2, THEN conjunct1]
      note now = all [THEN conjunct2, THEN conjunct2, THEN conjunct2, THEN conjunct1]
      note l2 = all [THEN conjunct2, THEN conjunct2, THEN conjunct2, THEN conjunct2, THEN conjunct1]
      note l3 = all [THEN conjunct2, THEN conjunct2, THEN conjunct2, THEN conjunct2, THEN conjunct2,
          THEN conjunct1]
      note l4 = all [THEN conjunct2, THEN conjunct2, THEN conjunct2, THEN conjunct2, THEN conjunct2,
          THEN conjunct2]
      have len5: "length w' \<le> 5" using len by simp
      from Cons.IH [OF ap rest inv len5, of l1' l2' l3' l4']
      have ih: "case scan_line b step ps (w', l1', l2', l3', l4') of
           Inl e \<Rightarrow> False
         | Inr (Return r) \<Rightarrow>
             \<exists>p. r = (l1' @ [p], [], [], []) \<and> p \<in> line_wins b step ps (length w') True
         | Inr (Next (m1, m2, m3, m4)) \<Rightarrow>
             m1 = l1' \<and> line_wins b step ps (length w') True = {} \<and>
             set m2 = set l2' \<union> line_wins b step ps (length w') False \<and>
             set m3 = set l3' \<union> line_threats b step ps (length w') True \<and>
             set m4 = set l4' \<union> line_threats b step ps (length w') False" .
      have sl: "scan_line b step (p # ps) (w, l1, l2, l3, l4) =
          scan_line b step ps (w', l1', l2', l3', l4')"
        using Inr Next st p by simp
      show ?thesis
      proof (cases "scan_line b step ps (w', l1', l2', l3', l4')")
        case (Inl e)
        with ih show ?thesis by simp
      next
        case r: (Inr fl')
        show ?thesis
        proof (cases fl')
          case (Return r')
          with ih r have "\<exists>p. r' = (l1' @ [p], [], [], []) \<and> p \<in> line_wins b step ps (length w') True"
            by simp
          then have "\<exists>p. r' = (l1 @ [p], [], [], []) \<and> p \<in> line_wins b step (a # ps) (length w) True"
            unfolding lw len l1 by auto
          with sl r Return p show ?thesis by simp
        next
          case n: (Next bk')
          obtain m1 m2 m3 m4 where bk': "bk' = (m1, m2, m3, m4)" by (cases bk')
          note allm = ih [unfolded r n bk' sum.case flow.case prod.case]
          note m = allm [THEN conjunct1] allm [THEN conjunct2, THEN conjunct1]
            allm [THEN conjunct2, THEN conjunct2, THEN conjunct1]
            allm [THEN conjunct2, THEN conjunct2, THEN conjunct2, THEN conjunct1]
            allm [THEN conjunct2, THEN conjunct2, THEN conjunct2, THEN conjunct2]
          have "m1 = l1" using m(1) l1 by simp
          moreover have "line_wins b step (a # ps) (length w) True = {}"
            unfolding lw using now m(2) len by simp
          moreover have "set m2 = set l2 \<union> line_wins b step (a # ps) (length w) False"
            unfolding lw m(3) l2 len by auto
          moreover have "set m3 = set l3 \<union> line_threats b step (a # ps) (length w) True"
            unfolding lt m(4) l3 len by auto
          moreover have "set m4 = set l4 \<union> line_threats b step (a # ps) (length w) False"
            unfolding lt m(5) l4 len by auto
          ultimately show ?thesis using sl r n bk' p by simp
        qed
      qed
    qed
  qed
qed

lemma ap_list_hd:
  assumes "ap_list a step line"
  shows "ap_list (hd line) step line"
proof (cases line)
  case Nil
  then show ?thesis by (simp add: ap_list_def)
next
  case (Cons p ps)
  with assms have "p = a" by (auto dest: ap_list_Cons(1))
  with assms Cons show ?thesis by simp
qed

lemma wf_on_board_range:
  assumes "wf_board b" and "on_board (size_b b) p"
  shows "0 \<le> p \<and> p < int (length (board b))"
  using assms on_board_range [of "size_b b" p] by (simp add: wf_board_def)

lemma scan_lines_sem:
  assumes wf: "wf_board b" and ok: "readable_lines b step lines"
  shows "case scan_lines b step lines (l1, l2, l3, l4) of
           Inl e \<Rightarrow> False
         | Inr (Return r) \<Rightarrow>
             \<exists>p. r = (l1 @ [p], [], [], []) \<and> p \<in> scan_wins b step lines True
         | Inr (Next (l1', l2', l3', l4')) \<Rightarrow>
             l1' = l1 \<and> scan_wins b step lines True = {} \<and>
             set l2' = set l2 \<union> scan_wins b step lines False \<and>
             set l3' = set l3 \<union> scan_threats b step lines True \<and>
             set l4' = set l4 \<union> scan_threats b step lines False"
  using ok
proof (induction lines arbitrary: l1 l2 l3 l4)
  case Nil
  then show ?case by (simp add: scan_wins_def scan_threats_def)
next
  case (Cons line lines)
  from Cons.prems have ap: "ap_list (hd line) step line"
    and ob: "\<forall>p \<in> set line. on_board (size_b b) p"
    and rest: "readable_lines b step lines"
    by (simp_all add: readable_lines_def)
  from ob wf_on_board_range [OF wf]
  have rd: "\<forall>p \<in> set line. 0 \<le> p \<and> p < int (length (board b))" by blast
  have w0: "[] = window b (hd line - int (length ([] :: string)) * step) step (length ([] :: string))"
    by (simp add: window_def)
  have sw: "scan_wins b step (line # lines) mine
      = line_wins b step line 0 mine \<union> scan_wins b step lines mine" for mine
    by (simp add: scan_wins_def)
  have st: "scan_threats b step (line # lines) mine
      = line_threats b step line 0 mine \<union> scan_threats b step lines mine" for mine
    by (simp add: scan_threats_def)
  have len0: "length ([] :: string) \<le> 5" by simp
  from scan_line_sem [OF ap rd w0 len0, of l1 l2 l3 l4, unfolded list.size]
  have sl: "case scan_line b step line ([], l1, l2, l3, l4) of
           Inl e \<Rightarrow> False
         | Inr (Return r) \<Rightarrow>
             \<exists>p. r = (l1 @ [p], [], [], []) \<and> p \<in> line_wins b step line 0 True
         | Inr (Next (l1', l2', l3', l4')) \<Rightarrow>
             l1' = l1 \<and> line_wins b step line 0 True = {} \<and>
             set l2' = set l2 \<union> line_wins b step line 0 False \<and>
             set l3' = set l3 \<union> line_threats b step line 0 True \<and>
             set l4' = set l4 \<union> line_threats b step line 0 False" .
  show ?case
  proof (cases "scan_line b step line ([], l1, l2, l3, l4)")
    case (Inl e)
    with sl show ?thesis by simp
  next
    case (Inr fl)
    show ?thesis
    proof (cases fl)
      case (Return r)
      with Inr sl have "\<exists>p. r = (l1 @ [p], [], [], []) \<and> p \<in> line_wins b step line 0 True"
        by simp
      then have "\<exists>p. r = (l1 @ [p], [], [], []) \<and> p \<in> scan_wins b step (line # lines) True"
        unfolding sw by auto
      with Inr Return show ?thesis by simp
    next
      case (Next bk)
      obtain k1 k2 k3 k4 where bk: "bk = (k1, k2, k3, k4)" by (cases bk)
      note all = sl [unfolded Inr Next bk sum.case flow.case prod.case]
      note k = all [THEN conjunct1] all [THEN conjunct2, THEN conjunct1]
            all [THEN conjunct2, THEN conjunct2, THEN conjunct1]
            all [THEN conjunct2, THEN conjunct2, THEN conjunct2, THEN conjunct1]
            all [THEN conjunct2, THEN conjunct2, THEN conjunct2, THEN conjunct2]
      have sls: "scan_lines b step (line # lines) (l1, l2, l3, l4)
          = scan_lines b step lines (k1, k2, k3, k4)"
        using Inr Next bk by simp
      from Cons.IH [OF rest, of k1 k2 k3 k4]
      have ih: "case scan_lines b step lines (k1, k2, k3, k4) of
           Inl e \<Rightarrow> False
         | Inr (Return r) \<Rightarrow>
             \<exists>p. r = (k1 @ [p], [], [], []) \<and> p \<in> scan_wins b step lines True
         | Inr (Next (m1, m2, m3, m4)) \<Rightarrow>
             m1 = k1 \<and> scan_wins b step lines True = {} \<and>
             set m2 = set k2 \<union> scan_wins b step lines False \<and>
             set m3 = set k3 \<union> scan_threats b step lines True \<and>
             set m4 = set k4 \<union> scan_threats b step lines False" .
      show ?thesis
      proof (cases "scan_lines b step lines (k1, k2, k3, k4)")
        case (Inl e)
        with ih show ?thesis by simp
      next
        case r: (Inr fl')
        show ?thesis
        proof (cases fl')
          case (Return r')
          with ih r have "\<exists>p. r' = (k1 @ [p], [], [], []) \<and> p \<in> scan_wins b step lines True"
            by simp
          then have "\<exists>p. r' = (l1 @ [p], [], [], []) \<and> p \<in> scan_wins b step (line # lines) True"
            unfolding sw k(1) by auto
          with sls r Return show ?thesis by simp
        next
          case n: (Next bk')
          obtain m1 m2 m3 m4 where bk': "bk' = (m1, m2, m3, m4)" by (cases bk')
          note allm = ih [unfolded r n bk' sum.case flow.case prod.case]
          note m = allm [THEN conjunct1] allm [THEN conjunct2, THEN conjunct1]
            allm [THEN conjunct2, THEN conjunct2, THEN conjunct1]
            allm [THEN conjunct2, THEN conjunct2, THEN conjunct2, THEN conjunct1]
            allm [THEN conjunct2, THEN conjunct2, THEN conjunct2, THEN conjunct2]
          have "m1 = l1" using m(1) k(1) by simp
          moreover have "scan_wins b step (line # lines) True = {}"
            unfolding sw using k(2) m(2) by simp
          moreover have "set m2 = set l2 \<union> scan_wins b step (line # lines) False"
            unfolding sw m(3) k(3) by auto
          moreover have "set m3 = set l3 \<union> scan_threats b step (line # lines) True"
            unfolding st m(4) k(4) by auto
          moreover have "set m4 = set l4 \<union> scan_threats b step (line # lines) False"
            unfolding st m(5) k(5) by auto
          ultimately show ?thesis using sls r n bk' by simp
        qed
      qed
    qed
  qed
qed

lemma scan_lines_semE:
  assumes wf: "wf_board b" and ok: "readable_lines b step lines"
  obtains (won) p where "scan_lines b step lines (l1, l2, l3, l4) = Inr (Return (l1 @ [p], [], [], []))"
      and "p \<in> scan_wins b step lines True"
  | (on) m2 m3 m4 where "scan_lines b step lines (l1, l2, l3, l4) = Inr (Next (l1, m2, m3, m4))"
      and "scan_wins b step lines True = {}"
      and "set m2 = set l2 \<union> scan_wins b step lines False"
      and "set m3 = set l3 \<union> scan_threats b step lines True"
      and "set m4 = set l4 \<union> scan_threats b step lines False"
proof -
  note sem = scan_lines_sem [OF wf ok, of l1 l2 l3 l4]
  show ?thesis
  proof (cases "scan_lines b step lines (l1, l2, l3, l4)")
    case (Inl e)
    with sem show ?thesis by simp
  next
    case (Inr fl)
    show ?thesis
    proof (cases fl)
      case (Return r)
      with Inr sem obtain p where "r = (l1 @ [p], [], [], [])" "p \<in> scan_wins b step lines True"
        by auto
      with Inr Return show ?thesis by (intro won [of p]) simp_all
    next
      case (Next bk)
      obtain m1 m2 m3 m4 where bk: "bk = (m1, m2, m3, m4)" by (cases bk)
      note allm = sem [unfolded Inr Next bk sum.case flow.case prod.case]
      note m = allm [THEN conjunct1] allm [THEN conjunct2, THEN conjunct1]
            allm [THEN conjunct2, THEN conjunct2, THEN conjunct1]
            allm [THEN conjunct2, THEN conjunct2, THEN conjunct2, THEN conjunct1]
            allm [THEN conjunct2, THEN conjunct2, THEN conjunct2, THEN conjunct2]
      show ?thesis
        using Inr Next bk m by (intro on [of m2 m3 m4]) simp_all
    qed
  qed
qed

lemma readable_horizontal: "wf_board b \<Longrightarrow> readable_lines b 1 (horizontal_lines (size_b b))"
  unfolding readable_lines_def
  using horizontal_lines_ap [of "size_b b"] horizontal_on_board [of "size_b b"]
  by (auto simp: wf_board_def intro: ap_list_hd)

lemma readable_vertical:
  "wf_board b \<Longrightarrow> readable_lines b (size_b b + 1) (vertical_lines (size_b b))"
  unfolding readable_lines_def
  using vertical_lines_ap [of "size_b b"] vertical_on_board [of "size_b b"]
  by (auto simp: wf_board_def intro: ap_list_hd)

lemma readable_diagonal_I:
  "wf_board b \<Longrightarrow> readable_lines b (size_b b + 2) (diagonal_I_lines (size_b b))"
  unfolding readable_lines_def
  using diagonal_I_lines_ap [of "size_b b"] diagonal_I_on_board [of "size_b b"]
  by (auto simp: wf_board_def intro: ap_list_hd)

lemma readable_diagonal_II:
  "wf_board b \<Longrightarrow> readable_lines b (size_b b) (diagonal_II_lines (size_b b))"
  unfolding readable_lines_def
  using diagonal_II_lines_ap [of "size_b b"] diagonal_II_on_board [of "size_b b"]
  by (auto simp: wf_board_def intro: ap_list_hd)

lemma winDetection_sem:
  assumes wf: "wf_board b"
  shows "(\<exists>p. winDetection b = Inr ([p], [], [], []) \<and> p \<in> all_wins b True) \<or>
         (all_wins b True = {} \<and>
          (\<exists>l2 l3 l4. winDetection b = Inr ([], l2, l3, l4) \<and> set l2 = all_wins b False \<and>
              set l3 = all_threats b True \<and> set l4 = all_threats b False))"
proof -
  let ?n = "size_b b"
  note aw = all_wins_def [of b, unfolded Let_def]
  note at = all_threats_def [of b, unfolded Let_def]
  show ?thesis
  using wf readable_horizontal [OF wf]
  proof (cases rule: scan_lines_semE [where ?l1.0 = "[]" and ?l2.0 = "[]" and ?l3.0 = "[]" and ?l4.0 = "[]"])
    case (won p)
    then have "winDetection b = Inr ([p], [], [], [])" "p \<in> all_wins b True"
      by (simp_all add: winDetection_def aw)
    then show ?thesis by blast
  next
    case h: (on h2 h3 h4)
    show ?thesis
    using wf readable_vertical [OF wf]
  proof (cases rule: scan_lines_semE [where ?l1.0 = "[]" and ?l2.0 = h2 and ?l3.0 = h3 and ?l4.0 = h4])
      case (won p)
      with h(1) have "winDetection b = Inr ([p], [], [], [])" "p \<in> all_wins b True"
        by (simp_all add: winDetection_def aw)
      then show ?thesis by blast
    next
      case v: (on v2 v3 v4)
      show ?thesis
      using wf readable_diagonal_I [OF wf]
  proof (cases rule: scan_lines_semE [where ?l1.0 = "[]" and ?l2.0 = v2 and ?l3.0 = v3 and ?l4.0 = v4])
        case (won p)
        with h(1) v(1) have "winDetection b = Inr ([p], [], [], [])" "p \<in> all_wins b True"
          by (simp_all add: winDetection_def aw)
        then show ?thesis by blast
      next
        case d: (on d2 d3 d4)
        show ?thesis
        using wf readable_diagonal_II [OF wf]
  proof (cases rule: scan_lines_semE [where ?l1.0 = "[]" and ?l2.0 = d2 and ?l3.0 = d3 and ?l4.0 = d4])
          case (won p)
          with h(1) v(1) d(1) have "winDetection b = Inr ([p], [], [], [])" "p \<in> all_wins b True"
            by (simp_all add: winDetection_def aw)
          then show ?thesis by blast
        next
          case e: (on e2 e3 e4)
          have "winDetection b = Inr ([], e2, e3, e4)"
            using h(1) v(1) d(1) e(1) by (simp add: winDetection_def)
          moreover have "all_wins b True = {}" unfolding aw using h(2) v(2) d(2) e(2) by simp
          moreover have "set e2 = all_wins b False"
            unfolding aw e(3) d(3) v(3) h(3) by auto
          moreover have "set e3 = all_threats b True"
            unfolding at e(4) d(4) v(4) h(4) by auto
          moreover have "set e4 = all_threats b False"
            unfolding at e(5) d(5) v(5) h(5) by auto
          ultimately show ?thesis by blast
        qed
      qed
    qed
  qed
qed

lemma ap_list_nth:
  assumes "ap_list a step line" and "i < length line"
  shows "line ! i = a + int i * step"
proof -
  from assms(1) have "line ! i = map (\<lambda>i. a + int i * step) [0..<length line] ! i"
    by (simp add: ap_list_def)
  with assms(2) show ?thesis by simp
qed

lemma ap_list_ap: "ap_list a step (ap a step m)"
  by (simp add: ap_list_def ap_def)

lemma lines_windows:
  assumes ok: "readable_lines b s X" and L: "1 \<le> L"
    and cov: "\<forall>q. (\<forall>j. 0 \<le> j \<and> j < int L \<longrightarrow> on_board (size_b b) (q + j * s)) \<longrightarrow>
               (\<exists>a m i. ap a s m \<in> set X \<and> int i + int L \<le> int m \<and> q = a + int i * s)"
  shows "(\<exists>line \<in> set X. \<exists>t < length line. L \<le> t + 1 \<and> P (line ! t)) \<longleftrightarrow>
         (\<exists>q. (\<forall>j. 0 \<le> j \<and> j < int L \<longrightarrow> on_board (size_b b) (q + j * s)) \<and>
              P (q + (int L - 1) * s))"
proof
  assume "\<exists>line \<in> set X. \<exists>t < length line. L \<le> t + 1 \<and> P (line ! t)"
  then obtain line t where line: "line \<in> set X" and t: "t < length line" "L \<le> t + 1"
    and P: "P (line ! t)" by blast
  from ok line have ap: "ap_list (hd line) s line" and ob: "\<forall>p \<in> set line. on_board (size_b b) p"
    by (simp_all add: readable_lines_def)
  define q where "q = hd line + (int t + 1 - int L) * s"
  have "on_board (size_b b) (q + j * s)" if j: "0 \<le> j" "j < int L" for j
  proof -
    define i where "i = nat (int t + 1 - int L + j)"
    have i: "i < length line" "int i = int t + 1 - int L + j" using j t by (simp_all add: i_def)
    have "line ! i = q + j * s"
      unfolding ap_list_nth [OF ap i(1)] q_def i(2) by (simp add: algebra_simps)
    moreover have "line ! i \<in> set line" using i(1) by simp
    ultimately show ?thesis using ob by metis
  qed
  moreover have "q + (int L - 1) * s = line ! t"
    unfolding ap_list_nth [OF ap t(1)] q_def by (simp add: algebra_simps)
  ultimately have "(\<forall>j. 0 \<le> j \<and> j < int L \<longrightarrow> on_board (size_b b) (q + j * s)) \<and>
              P (q + (int L - 1) * s)" using P by simp
  then show "\<exists>q. (\<forall>j. 0 \<le> j \<and> j < int L \<longrightarrow> on_board (size_b b) (q + j * s)) \<and>
              P (q + (int L - 1) * s)" by blast
next
  assume "\<exists>q. (\<forall>j. 0 \<le> j \<and> j < int L \<longrightarrow> on_board (size_b b) (q + j * s)) \<and>
              P (q + (int L - 1) * s)"
  then obtain q where q: "\<forall>j. 0 \<le> j \<and> j < int L \<longrightarrow> on_board (size_b b) (q + j * s)"
    and P: "P (q + (int L - 1) * s)" by blast
  from cov q obtain a m i where line: "ap a s m \<in> set X" and i: "int i + int L \<le> int m"
    and qa: "q = a + int i * s" by blast
  define t where "t = i + L - 1"
  have t: "t < m" "L \<le> t + 1" "int t = int i + int L - 1" using i L by (simp_all add: t_def)
  have "ap a s m ! t = q + (int L - 1) * s"
    using t(1) unfolding qa by (simp add: t(3) algebra_simps)
  with P have "P (ap a s m ! t)" by simp
  with t have "t < length (ap a s m) \<and> L \<le> t + 1 \<and> P (ap a s m ! t)" by simp
  with line show "\<exists>line \<in> set X. \<exists>t < length line. L \<le> t + 1 \<and> P (line ! t)" by blast
qed

lemma scan_wins_iff:
  assumes ok: "readable_lines b s X"
    and cov: "\<forall>q. (\<forall>j. 0 \<le> j \<and> j < 5 \<longrightarrow> on_board (size_b b) (q + j * s)) \<longrightarrow>
               (\<exists>a m i. ap a s m \<in> set X \<and> int i + 5 \<le> int m \<and> q = a + int i * s)"
  shows "x \<in> scan_wins b s X mine \<longleftrightarrow>
         (\<exists>q. (\<forall>j. 0 \<le> j \<and> j < 5 \<longrightarrow> on_board (size_b b) (q + j * s)) \<and>
              x \<in> win_at b s (q + 4 * s) mine)"
proof -
  have "x \<in> scan_wins b s X mine \<longleftrightarrow>
      (\<exists>line \<in> set X. \<exists>t < length line. 5 \<le> t + 1 \<and> x \<in> win_at b s (line ! t) mine)"
    by (simp add: scan_wins_def line_wins_def)
  also have "\<dots> \<longleftrightarrow> (\<exists>q. (\<forall>j. 0 \<le> j \<and> j < int 5 \<longrightarrow> on_board (size_b b) (q + j * s)) \<and>
              x \<in> win_at b s (q + (int 5 - 1) * s) mine)"
    using cov by (intro lines_windows [OF ok]) simp_all
  finally show ?thesis by simp
qed

lemma scan_threats_iff:
  assumes ok: "readable_lines b s X"
    and cov: "\<forall>q. (\<forall>j. 0 \<le> j \<and> j < 6 \<longrightarrow> on_board (size_b b) (q + j * s)) \<longrightarrow>
               (\<exists>a m i. ap a s m \<in> set X \<and> int i + 6 \<le> int m \<and> q = a + int i * s)"
  shows "x \<in> scan_threats b s X mine \<longleftrightarrow>
         (\<exists>q. (\<forall>j. 0 \<le> j \<and> j < 6 \<longrightarrow> on_board (size_b b) (q + j * s)) \<and>
              x \<in> threat_at b s (q + 5 * s) mine)"
proof -
  have "x \<in> scan_threats b s X mine \<longleftrightarrow>
      (\<exists>line \<in> set X. \<exists>t < length line. 6 \<le> t + 1 \<and> x \<in> threat_at b s (line ! t) mine)"
    by (simp add: scan_threats_def line_threats_def)
  also have "\<dots> \<longleftrightarrow> (\<exists>q. (\<forall>j. 0 \<le> j \<and> j < int 6 \<longrightarrow> on_board (size_b b) (q + j * s)) \<and>
              x \<in> threat_at b s (q + (int 6 - 1) * s) mine)"
    using cov by (intro lines_windows [OF ok]) simp_all
  finally show ?thesis by simp
qed

lemma all_wins_iff:
  assumes wf: "wf_board b"
  shows "x \<in> all_wins b mine \<longleftrightarrow>
         (\<exists>s \<in> set (shifts b). \<exists>q.
             (\<forall>j. 0 \<le> j \<and> j < 5 \<longrightarrow> on_board (size_b b) (q + j * s)) \<and>
             x \<in> win_at b s (q + 4 * s) mine)"
proof -
  let ?n = "size_b b"
  have n: "0 \<le> ?n" and NS: "NS b = ?n + 1" using wf by (simp_all add: wf_board_def)
  have five: "1 \<le> (5::int)" "5 \<le> (5::int)" by simp_all
  have ch: "\<forall>q. (\<forall>j. 0 \<le> j \<and> j < 5 \<longrightarrow> on_board ?n (q + j * 1)) \<longrightarrow>
      (\<exists>a m i. ap a 1 m \<in> set (horizontal_lines ?n) \<and> int i + 5 \<le> int m \<and> q = a + int i * 1)"
    by (intro allI impI) (rule horizontal_covered [OF n five(1)])
  have cv: "\<forall>q. (\<forall>j. 0 \<le> j \<and> j < 5 \<longrightarrow> on_board ?n (q + j * (?n + 1))) \<longrightarrow>
      (\<exists>a m i. ap a (?n + 1) m \<in> set (vertical_lines ?n) \<and> int i + 5 \<le> int m \<and>
      q = a + int i * (?n + 1))"
    by (intro allI impI) (rule vertical_covered [OF n five(1)])
  have c1: "\<forall>q. (\<forall>j. 0 \<le> j \<and> j < 5 \<longrightarrow> on_board ?n (q + j * (?n + 2))) \<longrightarrow>
      (\<exists>a m i. ap a (?n + 2) m \<in> set (diagonal_I_lines ?n) \<and> int i + 5 \<le> int m \<and>
      q = a + int i * (?n + 2))"
    by (intro allI impI) (rule diagonal_I_covered [OF n five(2)])
  have c2: "\<forall>q. (\<forall>j. 0 \<le> j \<and> j < 5 \<longrightarrow> on_board ?n (q + j * ?n)) \<longrightarrow>
      (\<exists>a m i. ap a ?n m \<in> set (diagonal_II_lines ?n) \<and> int i + 5 \<le> int m \<and>
      q = a + int i * ?n)"
    by (intro allI impI) (rule diagonal_II_covered [OF n five(2)])
  note h = scan_wins_iff [OF readable_horizontal [OF wf] ch, of x mine]
  note v = scan_wins_iff [OF readable_vertical [OF wf] cv, of x mine]
  note d1 = scan_wins_iff [OF readable_diagonal_I [OF wf] c1, of x mine]
  note d2 = scan_wins_iff [OF readable_diagonal_II [OF wf] c2, of x mine]
  have s: "set (shifts b) = {1, ?n + 1, ?n + 2, ?n}" by (simp add: shifts_def NS add.commute)
  show ?thesis
    unfolding all_wins_def Let_def Un_iff h v d1 d2 s by simp
qed

lemma all_threats_iff:
  assumes wf: "wf_board b"
  shows "x \<in> all_threats b mine \<longleftrightarrow>
         (\<exists>s \<in> set (shifts b). \<exists>q.
             (\<forall>j. 0 \<le> j \<and> j < 6 \<longrightarrow> on_board (size_b b) (q + j * s)) \<and>
             x \<in> threat_at b s (q + 5 * s) mine)"
proof -
  let ?n = "size_b b"
  have n: "0 \<le> ?n" and NS: "NS b = ?n + 1" using wf by (simp_all add: wf_board_def)
  have five: "1 \<le> (6::int)" "5 \<le> (6::int)" by simp_all
  have ch: "\<forall>q. (\<forall>j. 0 \<le> j \<and> j < 6 \<longrightarrow> on_board ?n (q + j * 1)) \<longrightarrow>
      (\<exists>a m i. ap a 1 m \<in> set (horizontal_lines ?n) \<and> int i + 6 \<le> int m \<and> q = a + int i * 1)"
    by (intro allI impI) (rule horizontal_covered [OF n five(1)])
  have cv: "\<forall>q. (\<forall>j. 0 \<le> j \<and> j < 6 \<longrightarrow> on_board ?n (q + j * (?n + 1))) \<longrightarrow>
      (\<exists>a m i. ap a (?n + 1) m \<in> set (vertical_lines ?n) \<and> int i + 6 \<le> int m \<and>
      q = a + int i * (?n + 1))"
    by (intro allI impI) (rule vertical_covered [OF n five(1)])
  have c1: "\<forall>q. (\<forall>j. 0 \<le> j \<and> j < 6 \<longrightarrow> on_board ?n (q + j * (?n + 2))) \<longrightarrow>
      (\<exists>a m i. ap a (?n + 2) m \<in> set (diagonal_I_lines ?n) \<and> int i + 6 \<le> int m \<and>
      q = a + int i * (?n + 2))"
    by (intro allI impI) (rule diagonal_I_covered [OF n five(2)])
  have c2: "\<forall>q. (\<forall>j. 0 \<le> j \<and> j < 6 \<longrightarrow> on_board ?n (q + j * ?n)) \<longrightarrow>
      (\<exists>a m i. ap a ?n m \<in> set (diagonal_II_lines ?n) \<and> int i + 6 \<le> int m \<and>
      q = a + int i * ?n)"
    by (intro allI impI) (rule diagonal_II_covered [OF n five(2)])
  note h = scan_threats_iff [OF readable_horizontal [OF wf] ch, of x mine]
  note v = scan_threats_iff [OF readable_vertical [OF wf] cv, of x mine]
  note d1 = scan_threats_iff [OF readable_diagonal_I [OF wf] c1, of x mine]
  note d2 = scan_threats_iff [OF readable_diagonal_II [OF wf] c2, of x mine]
  have s: "set (shifts b) = {1, ?n + 1, ?n + 2, ?n}" by (simp add: shifts_def NS add.commute)
  show ?thesis
    unfolding all_threats_def Let_def Un_iff h v d1 d2 s by simp
qed

end
